theory Spec2Isabelle
  imports Complex_Main "HOL-Library.Log_Nat"
begin

section \<open>Numbers of the host language and of the store\<close>

text \<open>
  A JavaScript number and a MongoDB double are IEEE 754 binary64 values. A finite one is
  a rational, and every arithmetic operation returns the exact result rounded to the
  nearest value with a significand of 53 bits, ties to the even significand. The numbers
  that this program computes (counts and their quotients, the counters of a streak,
  differences of time values and their quotients by the day) are \<open>0\<close> or of a magnitude
  between \<open>2 ^ - 53\<close> and \<open>2 ^ 54\<close>, so neither overflow nor the subnormal range is
  modelled.
\<close>

definition roundHalfEven :: "rat \<Rightarrow> int" where
  "roundHalfEven x =
     (let f = \<lfloor>x\<rfloor>; r = x - of_int f
      in if r < 1 / 2 then f else if 1 / 2 < r then f + 1 else if even f then f else f + 1)"

text \<open>
  The binary exponent of a positive rational, \<open>\<lfloor>log\<^sub>2 x\<rfloor>\<close>: the difference of the bit
  lengths of numerator and denominator, or one less.
\<close>

definition ilog2 :: "rat \<Rightarrow> int" where
  "ilog2 x = (let (a, b) = quotient_of x; k = bitlen a - bitlen b
              in if power_int 2 k \<le> x then k else k - 1)"

definition toDouble :: "rat \<Rightarrow> rat" where
  "toDouble x =
     (if x = 0 then 0
      else let e = ilog2 \<bar>x\<bar> - 52
           in sgn x * of_int (roundHalfEven (\<bar>x\<bar> / power_int 2 e)) * power_int 2 e)"

text \<open>
  \<open>Math.round\<close> returns the nearest integer and, of two equally near, the larger one.
\<close>

definition Math_round :: "rat \<Rightarrow> int" where
  "Math_round x = \<lfloor>x + 1 / 2\<rfloor>"

text \<open>
  The aggregation operators of the store on doubles. \<open>$divide\<close> fails on a zero divisor;
  \<open>$round\<close> to zero places rounds a tie to the even integer.
\<close>

datatype mongo_error = DivideByZero

definition mongo_divide :: "rat \<Rightarrow> rat \<Rightarrow> mongo_error + rat" where
  "mongo_divide a b = (if b = 0 then Inl DivideByZero else Inr (toDouble (a / b)))"

definition mongo_multiply :: "rat \<Rightarrow> rat \<Rightarrow> rat" where
  "mongo_multiply a b = toDouble (a * b)"

definition mongo_round :: "rat \<Rightarrow> int" where
  "mongo_round x = roundHalfEven x"

section \<open>Calendar arithmetic of the host language\<close>

text \<open>
  The time value of a JavaScript \<open>Date\<close> is an integer number of milliseconds since the
  epoch, of magnitude at most \<open>8.64 * 10 ^ 15\<close>; it is modelled as an \<open>int\<close>. The
  constant \<open>1000 * 60 * 60 * 24\<close> of \<open>updateStreak\<close> is the length of a day.
\<close>

definition msPerDay :: int where
  "msPerDay = 1000 * 60 * 60 * 24"

text \<open>
  The time zone of the host is the operation \<open>LocalTZA(t, isUTC)\<close> of the language
  standard: the offset of local time from UTC in milliseconds, at the UTC instant \<open>t\<close>
  when \<open>isUTC\<close> is true and at the local time \<open>t\<close> otherwise. It is a parameter of the
  model. A zone without daylight saving has one offset.
\<close>

type_synonym zone = "int \<Rightarrow> bool \<Rightarrow> int"

definition fixedZone :: "int \<Rightarrow> zone" where
  "fixedZone tz = (\<lambda>t isUTC. tz)"

text \<open>
  A zone with daylight saving, as an input for the properties below: the eastern zone of
  the United States around 10 March 2024. Until 07:00 UTC of that day the offset is minus
  five hours, from then on minus four. A local time before 03:00 of that day is read with
  the earlier offset; that includes the hour from 02:00 that the clocks skip, for which
  the standard prescribes the offset before the change.
\<close>

definition usEastern2024 :: zone where
  "usEastern2024 t isUTC =
     (if isUTC then (if t < 1710054000000 then - 18000000 else - 14400000)
      else (if t < 1710039600000 then - 18000000 else - 14400000))"

text \<open>
  \<open>Day(LocalTime(t))\<close>: the number of the local calendar day of an instant.
\<close>

definition localDay :: "zone \<Rightarrow> int \<Rightarrow> int" where
  "localDay z t = (t + z t True) div msPerDay"

text \<open>
  \<open>d.setHours(0, 0, 0, 0)\<close> replaces the time within the local day by zero and converts
  the local midnight back: \<open>UTC(MakeDate(Day(LocalTime(t)), 0))\<close>, where \<open>UTC\<close> subtracts
  the offset at that local time.
\<close>

definition setHours0 :: "zone \<Rightarrow> int \<Rightarrow> int" where
  "setHours0 z t =
     (let midnight = localDay z t * msPerDay
      in midnight - z midnight False)"

section \<open>The streak of a user (models/User.js)\<close>

text \<open>
  The sub-document \<open>stats.streak\<close> of the user schema: two numbers with default \<open>0\<close> and
  a date without default, absent until the first activity. A number is a double; the
  finite ones are rationals.
\<close>

record streak =
  current :: rat
  longest :: rat
  lastActiveDate :: "int option"

definition fresh :: streak where
  "fresh = \<lparr>current = 0, longest = 0, lastActiveDate = None\<rparr>"

text \<open>
  \<open>Math.floor((today - lastActive) / (1000 * 60 * 60 * 24))\<close>, both dates at midnight:
  the difference of the two time values and its quotient by the day are doubles.
\<close>

definition daysDiff :: "zone \<Rightarrow> int \<Rightarrow> int \<Rightarrow> int" where
  "daysDiff z now l =
     \<lfloor>toDouble (toDouble (of_int (setHours0 z now) - of_int (setHours0 z l))
                 / of_int msPerDay)\<rfloor>"

text \<open>
  \<open>updateStreak\<close> reads the clock with \<open>new Date()\<close>; the instant read is the parameter
  \<open>now\<close>. The branches are those of the source, in its order: a difference of one day
  continues the streak, a larger one restarts it, anything else (zero, or a negative
  difference) changes no counter; a user without a last active date starts at one. The
  increment \<open>current++\<close> is an addition of doubles. The last active date is overwritten
  with today's midnight on every path. Saving the document is the persistence layer's
  business and is left out.
\<close>

definition updateStreak :: "zone \<Rightarrow> int \<Rightarrow> streak \<Rightarrow> streak" where
  "updateStreak z now s =
     (let today = setHours0 z now;
          s1 = (case lastActiveDate s of
                  Some l \<Rightarrow>
                    (let d = daysDiff z now l in
                     if d = 1 then
                       (let s2 = s\<lparr>current := toDouble (current s + 1)\<rparr> in
                        if current s2 > longest s2 then s2\<lparr>longest := current s2\<rparr> else s2)
                     else if d > 1 then s\<lparr>current := 1\<rparr>
                     else s)
                | None \<Rightarrow> s\<lparr>current := 1, longest := 1\<rparr>)
      in s1\<lparr>lastActiveDate := Some today\<rparr>)"

text \<open>
  The specification calls the operation \<open>recordActivity\<close> and gives it an error result.
  The source has no \<open>throw\<close> in \<open>updateStreak\<close>: every call runs to the assignment of
  the last active date. As a result value this is always the right injection.
\<close>

datatype streak_error = OutOfOrderActivity

definition recordActivity :: "zone \<Rightarrow> int \<Rightarrow> streak \<Rightarrow> streak_error + streak" where
  "recordActivity z now s = Inr (updateStreak z now s)"

text \<open>A sequence of calls, oldest first, and the list of states it passes through.\<close>

fun updates :: "zone \<Rightarrow> int list \<Rightarrow> streak \<Rightarrow> streak" where
  "updates z [] s = s"
| "updates z (now # nows) s = updates z nows (updateStreak z now s)"

fun trace :: "zone \<Rightarrow> int list \<Rightarrow> streak \<Rightarrow> streak list" where
  "trace z [] s = [s]"
| "trace z (now # nows) s = s # trace z nows (updateStreak z now s)"

section \<open>Goals and their statistics (models/Goal.js and the statistics routes)\<close>

datatype category = Skill | Health | Career | Personal | Finance | Education

datatype priority = Low | Medium | High

text \<open>The fields of a goal document that the statistics read.\<close>

record goal =
  userId :: string
  category :: category
  priority :: priority
  deadline :: int
  completed :: bool
  createdAt :: int
  updatedAt :: int

text \<open>
  The stages of an aggregation pipeline. \<open>$match\<close> keeps the documents that satisfy the
  query. \<open>$group\<close> makes one output document for each value of the key that occurs; the
  store leaves the order of the groups open, here it is the order in which the keys
  occur for the last time. An accumulator \<open>{$sum: e}\<close> adds up \<open>e\<close> over the
  documents of the group.
\<close>

definition match :: "('a \<Rightarrow> bool) \<Rightarrow> 'a list \<Rightarrow> 'a list" where
  "match q docs = filter q docs"

definition group_stage :: "('a \<Rightarrow> 'k) \<Rightarrow> 'a list \<Rightarrow> ('k \<times> 'a list) list" where
  "group_stage key docs = map (\<lambda>k. (k, filter (\<lambda>d. key d = k) docs)) (remdups (map key docs))"

definition sum_acc :: "('a \<Rightarrow> int) \<Rightarrow> 'a list \<Rightarrow> int" where
  "sum_acc e docs = sum_list (map e docs)"

subsection \<open>\<open>getStatsByUser\<close>\<close>

record overview =
  ov_total :: int
  ov_completed :: int
  ov_overdue :: int

text \<open>
  The group_stage key is the constant \<open>null\<close>: one group when a document matched, none
  otherwise. \<open>stats[0] || {...}\<close> takes the first result, or the literal when there is
  none. The \<open>new Date()\<close> of the pipeline is the parameter \<open>now\<close>.
\<close>

definition getStatsByUser :: "int \<Rightarrow> string \<Rightarrow> goal list \<Rightarrow> overview" where
  "getStatsByUser now uid goals =
     (let stats =
            map (\<lambda>(k, docs).
                   \<lparr>ov_total = sum_acc (\<lambda>g. 1) docs,
                    ov_completed = sum_acc (\<lambda>g. if completed g = True then 1 else 0) docs,
                    ov_overdue =
                      sum_acc (\<lambda>g. if completed g = False \<and> deadline g < now then 1 else 0)
                        docs\<rparr>)
              (group_stage (\<lambda>g. ()) (match (\<lambda>g. userId g = uid) goals))
      in case stats of
           [] \<Rightarrow> \<lparr>ov_total = 0, ov_completed = 0, ov_overdue = 0\<rparr>
         | x # rest \<Rightarrow> x)"

subsection \<open>\<open>getStatsByCategory\<close>\<close>

record category_stats =
  cs_id :: category
  cs_category :: category
  cs_total :: int
  cs_completed :: int
  cs_percentage :: int

text \<open>
  The \<open>$project\<close> stage keeps \<open>_id\<close>, \<open>total\<close> and \<open>completed\<close>, copies \<open>_id\<close> to
  \<open>category\<close> and computes the percentage; a failing expression fails the pipeline.
\<close>

definition project_category :: "category \<Rightarrow> int \<Rightarrow> int \<Rightarrow> mongo_error + category_stats" where
  "project_category k tot compl =
     (case mongo_divide (of_int compl) (of_int tot) of
        Inl err \<Rightarrow> Inl err
      | Inr q \<Rightarrow>
          Inr \<lparr>cs_id = k, cs_category = k, cs_total = tot, cs_completed = compl,
               cs_percentage = mongo_round (mongo_multiply q 100)\<rparr>)"

fun all_or_error :: "('e + 'a) list \<Rightarrow> 'e + 'a list" where
  "all_or_error [] = Inr []"
| "all_or_error (Inl err # rs) = Inl err"
| "all_or_error (Inr x # rs) =
     (case all_or_error rs of Inl err \<Rightarrow> Inl err | Inr xs \<Rightarrow> Inr (x # xs))"

definition getStatsByCategory :: "string \<Rightarrow> goal list \<Rightarrow> mongo_error + category_stats list" where
  "getStatsByCategory uid goals =
     all_or_error
       (map (\<lambda>(k, docs).
               project_category k
                 (sum_acc (\<lambda>g. 1) docs)
                 (sum_acc (\<lambda>g. if completed g = True then 1 else 0) docs))
          (group_stage category (match (\<lambda>g. userId g = uid) goals)))"

text \<open>
  The entry of one category written out: the numbers of matched goals of the category,
  counted directly, and the percentage computed from them. Lemma
  \<open>getStatsByCategory_entries\<close> shows that the pipeline returns these entries, one for
  each category that occurs.
\<close>

definition category_entry :: "goal list \<Rightarrow> category \<Rightarrow> category_stats" where
  "category_entry m k =
     \<lparr>cs_id = k, cs_category = k,
      cs_total = int (length (filter (\<lambda>g. category g = k) m)),
      cs_completed = int (length (filter (\<lambda>g. completed g) (filter (\<lambda>g. category g = k) m))),
      cs_percentage =
        mongo_round (mongo_multiply
          (toDouble (of_int (int (length (filter (\<lambda>g. completed g) (filter (\<lambda>g. category g = k) m))))
                     / of_int (int (length (filter (\<lambda>g. category g = k) m))))) 100)\<rparr>"

subsection \<open>The dashboard\<close>

text \<open>
  The expression \<open>total > 0 ? Math.round((completed / total) * 100) : 0\<close>, which the
  dashboard applies to the counts of the user and the progress route to the cumulative
  counts of each day.
\<close>

definition completionRate :: "int \<Rightarrow> int \<Rightarrow> int" where
  "completionRate completedGoals totalGoals =
     (if totalGoals > 0
      then Math_round (toDouble (toDouble (of_int completedGoals / of_int totalGoals) * 100))
      else 0)"

definition countDocuments :: "(goal \<Rightarrow> bool) \<Rightarrow> goal list \<Rightarrow> int" where
  "countDocuments q goals = int (length (filter q goals))"

record summary =
  sm_total :: int
  sm_completed :: int
  sm_active :: int
  sm_overdue :: int
  sm_completionRate :: int

definition dashboardSummary :: "int \<Rightarrow> string \<Rightarrow> goal list \<Rightarrow> summary" where
  "dashboardSummary today uid goals =
     (let totalGoals = countDocuments (\<lambda>g. userId g = uid) goals;
          completedGoals = countDocuments (\<lambda>g. userId g = uid \<and> completed g = True) goals;
          activeGoals = countDocuments (\<lambda>g. userId g = uid \<and> completed g = False) goals;
          overdueGoals =
            countDocuments (\<lambda>g. userId g = uid \<and> completed g = False \<and> deadline g < today)
              goals
      in \<lparr>sm_total = totalGoals, sm_completed = completedGoals, sm_active = activeGoals,
          sm_overdue = overdueGoals,
          sm_completionRate = completionRate completedGoals totalGoals\<rparr>)"

subsection \<open>Progress over time\<close>

text \<open>
  The progress route groups the goals created since \<open>startDate\<close> by the day of their
  creation, written by \<open>$dateToString\<close> as year, month and day, and sorts the groups by
  that key. The formatting function is the parameter \<open>fmt\<close>, into any linear order: for
  the strings of the store and years of four digits that order is the order of the
  calendar. The start date, which the route computes from the clock and the requested
  period, is a parameter as well.
\<close>

record 'k day_bucket =
  db_id :: 'k
  db_created :: int
  db_completed :: int

definition progressData ::
  "(int \<Rightarrow> 'k::linorder) \<Rightarrow> string \<Rightarrow> int \<Rightarrow> goal list \<Rightarrow> 'k day_bucket list" where
  "progressData fmt uid startDate goals =
     sort_key db_id
       (map (\<lambda>(k, docs).
               \<lparr>db_id = k, db_created = sum_acc (\<lambda>g. 1) docs,
                db_completed = sum_acc (\<lambda>g. if completed g then 1 else 0) docs\<rparr>)
          (group_stage (\<lambda>g. fmt (createdAt g))
             (match (\<lambda>g. userId g = uid \<and> startDate \<le> createdAt g) goals)))"

record 'k progress_point =
  pp_date :: 'k
  pp_total :: int
  pp_completed :: int
  pp_completionRate :: int

text \<open>
  The \<open>map\<close> over the sorted days updates two variables declared outside its callback;
  they are the accumulators of the recursion, \<open>0\<close> at the start.
\<close>

fun cumulative :: "int \<Rightarrow> int \<Rightarrow> 'k day_bucket list \<Rightarrow> 'k progress_point list" where
  "cumulative cumulativeTotal cumulativeCompleted [] = []"
| "cumulative cumulativeTotal cumulativeCompleted (day # days) =
     (let cumulativeTotal' = cumulativeTotal + db_created day;
          cumulativeCompleted' = cumulativeCompleted + db_completed day
      in \<lparr>pp_date = db_id day, pp_total = cumulativeTotal',
          pp_completed = cumulativeCompleted',
          pp_completionRate = completionRate cumulativeCompleted' cumulativeTotal'\<rparr>
         # cumulative cumulativeTotal' cumulativeCompleted' days)"

definition cumulativeProgress ::
  "(int \<Rightarrow> 'k::linorder) \<Rightarrow> string \<Rightarrow> int \<Rightarrow> goal list \<Rightarrow> 'k progress_point list" where
  "cumulativeProgress fmt uid startDate goals =
     cumulative 0 0 (progressData fmt uid startDate goals)"

section \<open>The percentage of the specification\<close>

text \<open>
  The specification's words, for comparison with the code: the percentage is
  \<open>completed / total \<times> 100\<close> rounded half up to the nearest integer, and \<open>0\<close> when the
  denominator is \<open>0\<close>. The quotient is the exact one.
\<close>

definition spec_percentage :: "int \<Rightarrow> int \<Rightarrow> int" where
  "spec_percentage completedCount totalCount =
     (if totalCount = 0 then 0
      else \<lfloor>(of_int completedCount / of_int totalCount * 100 + 1 / 2 :: rat)\<rfloor>)"

section \<open>Properties of rounding to a double\<close>

text \<open>The exponent is the binary logarithm, rounded down.\<close>

lemma ilog2_bounds:
  assumes "0 < x"
  shows "power_int 2 (ilog2 x) \<le> x" and "x < power_int 2 (ilog2 x + 1)"
proof -
  obtain a b where ab: "quotient_of x = (a, b)"
    by (cases "quotient_of x")
  have b: "0 < b"
    using ab by (rule quotient_of_denom_pos)
  have x: "x = of_int a / of_int b"
    using ab by (rule quotient_of_div)
  have a: "0 < a"
    using assms b by (simp add: x zero_less_divide_iff)
  define k where "k = bitlen a - bitlen b"
  have la: "1 \<le> bitlen a" and lb: "1 \<le> bitlen b"
    using a b bitlen_eq_zero_iff [of a] bitlen_eq_zero_iff [of b] bitlen_nonneg [of a]
      bitlen_nonneg [of b] by linarith+
  have pa: "(2::rat) powi (bitlen a - 1) \<le> of_int a" "of_int a < (2::rat) powi bitlen a"
  proof -
    have "(2::int) ^ nat (bitlen a - 1) \<le> a" "a < 2 ^ nat (bitlen a)"
      using bitlen_bounds [OF a] by simp_all
    then have "(of_int ((2::int) ^ nat (bitlen a - 1)) :: rat) \<le> of_int a"
      "(of_int a :: rat) < of_int (2 ^ nat (bitlen a))"
      by (simp_all only: of_int_le_iff of_int_less_iff)
    then show "(2::rat) powi (bitlen a - 1) \<le> of_int a" "of_int a < (2::rat) powi bitlen a"
      using la by (simp_all add: power_int_nonneg_exp)
  qed
  have pb: "(2::rat) powi (bitlen b - 1) \<le> of_int b" "of_int b < (2::rat) powi bitlen b"
  proof -
    have "(2::int) ^ nat (bitlen b - 1) \<le> b" "b < 2 ^ nat (bitlen b)"
      using bitlen_bounds [OF b] by simp_all
    then have "(of_int ((2::int) ^ nat (bitlen b - 1)) :: rat) \<le> of_int b"
      "(of_int b :: rat) < of_int (2 ^ nat (bitlen b))"
      by (simp_all only: of_int_le_iff of_int_less_iff)
    then show "(2::rat) powi (bitlen b - 1) \<le> of_int b" "of_int b < (2::rat) powi bitlen b"
      using lb by (simp_all add: power_int_nonneg_exp)
  qed
  have bpos: "(0::rat) < of_int b"
    using b by simp
  have lo: "(2::rat) powi (k - 1) \<le> x"
  proof -
    have "k - 1 = (bitlen a - 1) - bitlen b"
      by (simp add: k_def)
    then have "(2::rat) powi (k - 1) = 2 powi ((bitlen a - 1) - bitlen b)"
      by (simp only:)
    also have "\<dots> = 2 powi (bitlen a - 1) / 2 powi bitlen b"
      by (rule power_int_diff) simp
    also have "\<dots> \<le> of_int a / 2 powi bitlen b"
      using pa(1) by (simp add: divide_right_mono)
    also have "\<dots> \<le> of_int a / of_int b"
      using pb(2) a bpos by (intro divide_left_mono) (simp_all add: less_imp_le)
    finally show ?thesis by (simp add: x)
  qed
  have hi: "x < (2::rat) powi (k + 1)"
  proof -
    have "x = of_int a / of_int b" by (rule x)
    also have "\<dots> < 2 powi bitlen a / of_int b"
      using pa(2) bpos by (simp add: divide_strict_right_mono)
    also have "\<dots> \<le> 2 powi bitlen a / 2 powi (bitlen b - 1)"
      using pb(1) bpos by (intro divide_left_mono) simp_all
    also have "\<dots> = (2::rat) powi (bitlen a - (bitlen b - 1))"
      by (rule power_int_diff [symmetric]) simp
    also have "bitlen a - (bitlen b - 1) = k + 1"
      by (simp add: k_def)
    finally show ?thesis .
  qed
  have il: "ilog2 x = (if 2 powi k \<le> x then k else k - 1)"
    by (simp add: ilog2_def ab k_def Let_def)
  show "power_int 2 (ilog2 x) \<le> x"
    using lo by (simp add: il)
  show "x < power_int 2 (ilog2 x + 1)"
    using hi by (auto simp: il not_le)
qed

text \<open>
  Rounding to an integer moves a value by at most one half, never across an integer, and
  is decided by the two half-integers next to the value.
\<close>

lemma roundHalfEven_error: "\<bar>of_int (roundHalfEven m) - m\<bar> \<le> 1 / 2"
proof -
  have "of_int \<lfloor>m\<rfloor> \<le> m" "m < of_int \<lfloor>m\<rfloor> + 1"
    by linarith+
  then show ?thesis
    by (auto simp: roundHalfEven_def Let_def abs_le_iff)
qed

lemma roundHalfEven_le: "m \<le> of_int n \<Longrightarrow> roundHalfEven m \<le> n"
proof -
  assume le: "m \<le> of_int n"
  have f: "\<lfloor>m\<rfloor> \<le> n"
    using le by (simp add: floor_le_iff)
  show ?thesis
  proof (cases "\<lfloor>m\<rfloor> = n")
    case True
    then have "m - of_int \<lfloor>m\<rfloor> \<le> 0" using le by simp
    then show ?thesis using True by (simp add: roundHalfEven_def Let_def)
  next
    case False
    with f have "\<lfloor>m\<rfloor> + 1 \<le> n" by simp
    then show ?thesis by (auto simp: roundHalfEven_def Let_def)
  qed
qed

lemma roundHalfEven_ge: "of_int n \<le> m \<Longrightarrow> n \<le> roundHalfEven m"
proof -
  assume "of_int n \<le> m"
  then have "n \<le> \<lfloor>m\<rfloor>" by (simp add: le_floor_iff)
  then show ?thesis by (auto simp: roundHalfEven_def Let_def)
qed

lemma roundHalfEven_between:
  "of_int n - 1 / 2 < m \<Longrightarrow> m < of_int n + 1 / 2 \<Longrightarrow> roundHalfEven m = n"
proof -
  assume lo: "of_int n - 1 / 2 < m" and hi: "m < of_int n + 1 / 2"
  have fl: "of_int \<lfloor>m\<rfloor> \<le> m" "m < of_int \<lfloor>m\<rfloor> + 1"
    by linarith+
  have "\<lfloor>m\<rfloor> = n \<or> \<lfloor>m\<rfloor> = n - 1"
  proof -
    have "(of_int \<lfloor>m\<rfloor> :: rat) < of_int n + 1 / 2" using fl(1) hi by linarith
    then have "(of_int \<lfloor>m\<rfloor> :: rat) < of_int (n + 1)" by simp
    then have 1: "\<lfloor>m\<rfloor> < n + 1" by (simp only: of_int_less_iff)
    have "(of_int n :: rat) - 1 / 2 < of_int \<lfloor>m\<rfloor> + 1" using fl(2) lo by linarith
    then have "(of_int (n - 2) :: rat) < of_int \<lfloor>m\<rfloor>" by simp
    then have 2: "n - 2 < \<lfloor>m\<rfloor>" by (simp only: of_int_less_iff)
    from 1 2 show ?thesis by linarith
  qed
  then show ?thesis
  proof
    assume e: "\<lfloor>m\<rfloor> = n"
    then have "m - of_int \<lfloor>m\<rfloor> < 1 / 2" using hi by simp
    then show ?thesis by (simp add: roundHalfEven_def Let_def e)
  next
    assume e: "\<lfloor>m\<rfloor> = n - 1"
    then have "1 / 2 < m - of_int \<lfloor>m\<rfloor>" using lo by simp
    then show ?thesis by (simp add: roundHalfEven_def Let_def e)
  qed
qed

text \<open>
  Rounding to a double: the significand has 53 bits, the relative error is at most
  \<open>2 ^ - 53\<close>, and no integer below \<open>2 ^ 53\<close> is crossed.
\<close>

lemma toDouble_pos:
  "0 < x \<Longrightarrow>
   toDouble x = of_int (roundHalfEven (x / 2 powi (ilog2 x - 52))) * 2 powi (ilog2 x - 52)"
  by (simp add: toDouble_def Let_def)

lemma toDouble_zero: "toDouble 0 = 0"
  by (simp add: toDouble_def)

lemma toDouble_significand:
  assumes "0 < x"
  shows "2 ^ 52 \<le> roundHalfEven (x / 2 powi (ilog2 x - 52))"
    and "roundHalfEven (x / 2 powi (ilog2 x - 52)) \<le> 2 ^ 53"
proof -
  define p :: rat where "p = 2 powi (ilog2 x - 52)"
  have p: "0 < p" by (simp add: p_def)
  have lo: "2 powi (ilog2 x) = p * 2 ^ 52"
  proof -
    have "(2::rat) powi (ilog2 x - 52) = 2 powi (ilog2 x) / 2 powi 52"
      by (rule power_int_diff) simp
    then show ?thesis by (simp add: p_def)
  qed
  have hi: "2 powi (ilog2 x + 1) = p * 2 ^ 53"
  proof -
    have "(2::rat) powi (ilog2 x + 1) = 2 powi (ilog2 x) * 2"
      by (rule power_int_add_1) simp
    then show ?thesis by (simp add: lo)
  qed
  have "p * 2 ^ 52 \<le> x" "x < p * 2 ^ 53"
    using ilog2_bounds [OF assms] by (simp_all only: lo hi)
  then have m: "(of_int (2 ^ 52) :: rat) \<le> x / p" "x / p \<le> of_int (2 ^ 53)"
    using p by (simp_all add: field_simps)
  show "2 ^ 52 \<le> roundHalfEven (x / 2 powi (ilog2 x - 52))"
    unfolding p_def [symmetric] by (rule roundHalfEven_ge [OF m(1)])
  show "roundHalfEven (x / 2 powi (ilog2 x - 52)) \<le> 2 ^ 53"
    unfolding p_def [symmetric] by (rule roundHalfEven_le [OF m(2)])
qed

lemma toDouble_error:
  assumes "0 < x"
  shows "\<bar>toDouble x - x\<bar> \<le> x / 2 ^ 53"
proof -
  define p :: rat where "p = 2 powi (ilog2 x - 52)"
  define m where "m = x / p"
  have p: "0 < p" by (simp add: p_def)
  have x: "x = m * p" using p by (simp add: m_def)
  have "toDouble x - x = (of_int (roundHalfEven m) - m) * p"
    using assms by (simp add: toDouble_pos p_def [symmetric] m_def [symmetric] x [symmetric] algebra_simps)
  then have "\<bar>toDouble x - x\<bar> = \<bar>of_int (roundHalfEven m) - m\<bar> * p"
    using p by (simp add: abs_mult)
  also have "\<dots> \<le> (1 / 2) * p"
    using roundHalfEven_error [of m] p by (intro mult_right_mono) simp_all
  also have "(1 / 2) * p = 2 powi (ilog2 x) / 2 ^ 53"
  proof -
    have "ilog2 x - 52 = ilog2 x - 53 + 1" by simp
    then have "p = 2 powi (ilog2 x - 53 + 1)"
      unfolding p_def by (simp only:)
    also have "\<dots> = 2 powi (ilog2 x - 53) * 2"
      by (rule power_int_add_1) simp
    finally have "p = 2 powi (ilog2 x - 53) * 2" .
    moreover have "(2::rat) powi (ilog2 x - 53) = 2 powi (ilog2 x) / 2 powi 53"
      by (rule power_int_diff) simp
    ultimately show ?thesis by simp
  qed
  also have "\<dots> \<le> x / 2 ^ 53"
    using ilog2_bounds(1) [OF assms] by (simp add: divide_right_mono)
  finally show ?thesis .
qed

lemma toDouble_nonneg: "0 \<le> x \<Longrightarrow> 0 \<le> toDouble x"
proof (cases "x = 0")
  case True
  then show ?thesis by (simp add: toDouble_zero)
next
  case False
  assume "0 \<le> x"
  with False have pos: "0 < x" by simp
  have "(of_int 0 :: rat) \<le> x / 2 powi (ilog2 x - 52)"
    using pos by simp
  then have "0 \<le> roundHalfEven (x / 2 powi (ilog2 x - 52))"
    by (rule roundHalfEven_ge)
  then show ?thesis
    using pos by (simp add: toDouble_pos)
qed

lemma toDouble_le_int:
  assumes "0 \<le> x" and "x \<le> of_int N" and "N < 2 ^ 53"
  shows "toDouble x \<le> of_int N"
proof (cases "x = 0")
  case True
  with assms show ?thesis by (simp add: toDouble_zero)
next
  case False
  with assms have pos: "0 < x" by simp
  define e where "e = ilog2 x - 52"
  have "(2::rat) powi (ilog2 x) \<le> of_int N"
    using ilog2_bounds(1) [OF pos] assms(2) by linarith
  also have "(of_int N :: rat) < of_int (2 ^ 53)"
    using assms(3) by (simp only: of_int_less_iff)
  finally have "(2::rat) powi (ilog2 x) < 2 powi 53"
    by simp
  then have "ilog2 x < 53"
    by (rule power_int_le_imp_less_exp [rotated]) simp_all
  then have e: "e \<le> 0" by (simp add: e_def)
  have p: "(0::rat) < 2 powi e" by simp
  have inv: "1 / (2::rat) powi e = of_int (2 ^ nat (- e))"
    using e by (simp add: power_int_def field_simps)
  have "x / 2 powi e \<le> of_int N / 2 powi e"
    using assms(2) p by (simp add: divide_right_mono)
  also have "of_int N / (2::rat) powi e = of_int (N * 2 ^ nat (- e))"
    using inv by (simp add: field_simps)
  finally have "roundHalfEven (x / 2 powi e) \<le> N * 2 ^ nat (- e)"
    by (rule roundHalfEven_le)
  then have "(of_int (roundHalfEven (x / 2 powi e)) :: rat) \<le> of_int (N * 2 ^ nat (- e))"
    by (simp only: of_int_le_iff)
  then have "of_int (roundHalfEven (x / 2 powi e)) * 2 powi e
             \<le> (of_int (N * 2 ^ nat (- e)) :: rat) * 2 powi e"
    using p by (simp add: mult_right_mono)
  also have "(of_int (N * 2 ^ nat (- e)) :: rat) * 2 powi e = of_int N"
    using inv p by (simp add: field_simps)
  finally show ?thesis
    using pos by (simp add: toDouble_pos e_def)
qed

text \<open>
  The double that both percentages round, \<open>(completed / total) * 100\<close>: it lies
  between \<open>0\<close> and \<open>100\<close> and within \<open>200 / 2 ^ 53\<close> of the exact percentage.
\<close>

lemma pct_bounds:
  assumes "0 \<le> c" and "c \<le> t" and "0 < t"
  shows "0 \<le> toDouble (toDouble (of_int c / of_int t) * 100)"
    and "toDouble (toDouble (of_int c / of_int t) * 100) \<le> 100"
proof -
  let ?q = "of_int c / of_int t :: rat"
  have q: "0 \<le> ?q" "?q \<le> of_int 1"
    using assms by simp_all
  have q1: "0 \<le> toDouble ?q" "toDouble ?q \<le> 1"
    using toDouble_nonneg [OF q(1)] toDouble_le_int [OF q, of ] by simp_all
  then have h: "0 \<le> toDouble ?q * 100" "toDouble ?q * 100 \<le> of_int 100"
    by simp_all
  show "0 \<le> toDouble (toDouble ?q * 100)"
    by (rule toDouble_nonneg [OF h(1)])
  show "toDouble (toDouble ?q * 100) \<le> 100"
    using toDouble_le_int [OF h] by simp
qed

lemma toDouble_error0: "0 \<le> x \<Longrightarrow> \<bar>toDouble x - x\<bar> \<le> x / 2 ^ 53"
  using toDouble_error [of x] by (cases "x = 0") (simp_all add: toDouble_zero)

lemma pct_close:
  assumes "0 \<le> c" and "c \<le> t" and "0 < t"
  shows "\<bar>toDouble (toDouble (of_int c / of_int t) * 100) - of_int c / of_int t * 100\<bar>
         \<le> 200 / 2 ^ 53"
proof -
  let ?q = "of_int c / of_int t :: rat"
  have q: "0 \<le> ?q" "?q \<le> of_int 1"
    using assms by simp_all
  have q1: "0 \<le> toDouble ?q" "toDouble ?q \<le> 1"
    using toDouble_nonneg [OF q(1)] toDouble_le_int [OF q] by simp_all
  have e1: "\<bar>toDouble ?q - ?q\<bar> \<le> 1 / 2 ^ 53"
  proof -
    have "\<bar>toDouble ?q - ?q\<bar> \<le> ?q / 2 ^ 53"
      by (rule toDouble_error0 [OF q(1)])
    also have "\<dots> \<le> 1 / 2 ^ 53"
      using q(2) by (simp add: divide_right_mono)
    finally show ?thesis .
  qed
  have e2: "\<bar>toDouble (toDouble ?q * 100) - toDouble ?q * 100\<bar> \<le> 100 / 2 ^ 53"
  proof -
    have "0 \<le> toDouble ?q * 100" using q1 by simp
    then have "\<bar>toDouble (toDouble ?q * 100) - toDouble ?q * 100\<bar> \<le> toDouble ?q * 100 / 2 ^ 53"
      by (rule toDouble_error0)
    also have "\<dots> \<le> 100 / 2 ^ 53"
      using q1(2) by (simp add: divide_right_mono)
    finally show ?thesis .
  qed
  have tri: "\<bar>a - b * 100\<bar> \<le> \<bar>a - m * 100\<bar> + 100 * \<bar>m - b\<bar>" for a b m :: rat
  proof -
    have "a - b * 100 = (a - m * 100) + 100 * (m - b)"
      by (simp add: algebra_simps)
    then have "\<bar>a - b * 100\<bar> = \<bar>(a - m * 100) + 100 * (m - b)\<bar>"
      by (simp only:)
    also have "\<dots> \<le> \<bar>a - m * 100\<bar> + \<bar>100 * (m - b)\<bar>"
      by (rule abs_triangle_ineq)
    also have "\<bar>100 * (m - b)\<bar> = 100 * \<bar>m - b\<bar>"
      by (subst abs_mult) simp
    finally show ?thesis .
  qed
  have "\<bar>toDouble (toDouble ?q * 100) - ?q * 100\<bar>
        \<le> \<bar>toDouble (toDouble ?q * 100) - toDouble ?q * 100\<bar> + 100 * \<bar>toDouble ?q - ?q\<bar>"
    by (rule tri)
  also have "\<dots> \<le> 100 / 2 ^ 53 + 100 * (1 / 2 ^ 53)"
    using e1 e2 by (intro add_mono mult_left_mono) simp_all
  finally show ?thesis by simp
qed

text \<open>
  The exact percentage is a fraction with denominator \<open>total\<close>. Unless it lies halfway
  between two integers, it keeps a distance of \<open>1 / (2 * total)\<close> from every halfway
  point, which for totals below \<open>2 ^ 44\<close> is more than the error of the double.
\<close>

lemma exact_pct_gap:
  fixes c t :: int
  assumes "0 < t" and "t < 2 ^ 44"
  defines "y \<equiv> of_int c / of_int t * 100 :: rat"
  defines "n \<equiv> \<lfloor>y + 1 / 2\<rfloor>"
  shows "frac y = 1 / 2 \<Longrightarrow> y = of_int n - 1 / 2"
    and "frac y \<noteq> 1 / 2 \<Longrightarrow> of_int n + 200 / 2 ^ 53 < y + 1 / 2"
    and "y + 1 / 2 + 200 / 2 ^ 53 < of_int n + 1"
proof -
  define N where "N = 200 * c + t"
  define D where "D = 2 * t"
  have D: "0 < D" using assms(1) by (simp add: D_def)
  have tpos: "(0::rat) < of_int t" using assms(1) by simp
  have yh: "y + 1 / 2 = of_int N / of_int D"
    using tpos by (simp add: y_def N_def D_def field_simps)
  have n: "n = N div D"
    by (simp add: n_def yh floor_divide_of_int_eq)
  define r where "r = N mod D"
  have r: "0 \<le> r" "r < D" using D by (simp_all add: r_def)
  have N: "N = n * D + r" by (simp add: n r_def)
  have Dr: "(0::rat) < of_int D" using D by simp
  have yr: "y + 1 / 2 = of_int n + of_int r / of_int D"
    using Dr by (simp add: yh N field_simps)
  have small: "(200::rat) / 2 ^ 53 < 1 / of_int D"
  proof -
    have "400 * t < 2 ^ 53" using assms(2) by simp
    then have "200 * D < 2 ^ 53" by (simp add: D_def)
    then have "(of_int (200 * D) :: rat) < of_int (2 ^ 53)" by (simp only: of_int_less_iff)
    then have "200 * (of_int D :: rat) < 2 ^ 53" by simp
    then show ?thesis using Dr by (simp add: field_simps)
  qed
  have r0: "r = 0" if "frac y = 1 / 2"
  proof -
    from that have "y + 1 / 2 = of_int (\<lfloor>y\<rfloor> + 1)"
      by (simp add: frac_def)
    then have "of_int N / of_int D = (of_int (\<lfloor>y\<rfloor> + 1) :: rat)"
      by (simp only: yh)
    then have "(of_int N :: rat) = of_int ((\<lfloor>y\<rfloor> + 1) * D)"
      using Dr by (simp add: field_simps)
    then have "N = (\<lfloor>y\<rfloor> + 1) * D" by (simp only: of_int_eq_iff)
    then show ?thesis by (simp add: r_def)
  qed
  show "y = of_int n - 1 / 2" if "frac y = 1 / 2"
    using yr r0 [OF that] by simp
  show "of_int n + 200 / 2 ^ 53 < y + 1 / 2" if "frac y \<noteq> 1 / 2"
  proof -
    have "r \<noteq> 0"
    proof
      assume "r = 0"
      then have "y = of_int n - 1 / 2" using yr by simp
      then have "y - 1 / 2 = of_int (n - 1)"
        by simp
      then have "y - 1 / 2 \<in> \<int>"
        by (simp only: Ints_of_int)
      then have "frac y = 1 / 2"
        by (subst frac_unique_iff) simp
      with that show False by simp
    qed
    with r have "1 \<le> r" by simp
    then have "(1::rat) \<le> of_int r" by simp
    then have "1 / of_int D \<le> (of_int r :: rat) / of_int D"
      using Dr by (simp add: divide_right_mono)
    with small yr show ?thesis by linarith
  qed
  show "y + 1 / 2 + 200 / 2 ^ 53 < of_int n + 1"
  proof -
    have "r + 1 \<le> D" using r by simp
    then have "(of_int (r + 1) :: rat) \<le> of_int D" by (simp only: of_int_le_iff)
    then have "(of_int r :: rat) / of_int D + 1 / of_int D \<le> 1"
      using Dr by (simp add: field_simps)
    with small yr show ?thesis by linarith
  qed
qed

text \<open>Hence both roundings of the double agree with the half-up rounding of the exact
  percentage, except possibly at a halfway point, where they return it or one less.\<close>

lemma roundHalfEven_near:
  assumes "of_int k - 1 / 2 < m" and "m < of_int k + 3 / 2"
  shows "roundHalfEven m = k \<or> roundHalfEven m = k + 1"
proof -
  consider "m < of_int k + 1 / 2" | "of_int k + 1 / 2 < m" | "m = of_int k + 1 / 2"
    by linarith
  then show ?thesis
  proof cases
    case 1
    with assms(1) show ?thesis by (simp add: roundHalfEven_between)
  next
    case 2
    then have "of_int (k + 1) - 1 / 2 < m" by simp
    moreover have "m < of_int (k + 1) + 1 / 2" using assms(2) by simp
    ultimately have "roundHalfEven m = k + 1" by (rule roundHalfEven_between)
    then show ?thesis by simp
  next
    case 3
    then have "\<lfloor>m\<rfloor> = k"
      by (intro floor_unique) simp_all
    then show ?thesis
      by (simp add: roundHalfEven_def Let_def 3)
  qed
qed

lemma pct_rounds:
  fixes c t :: int
  assumes "0 \<le> c" and "c \<le> t" and "0 < t" and "t < 2 ^ 44"
  defines "X \<equiv> toDouble (toDouble (of_int c / of_int t) * 100)"
  defines "n \<equiv> spec_percentage c t"
  shows "Math_round X = n \<or> Math_round X = n - 1"
    and "roundHalfEven X = n \<or> roundHalfEven X = n - 1"
    and "frac (of_int c / of_int t * 100 :: rat) \<noteq> 1 / 2 \<Longrightarrow> Math_round X = n"
    and "frac (of_int c / of_int t * 100 :: rat) \<noteq> 1 / 2 \<Longrightarrow> roundHalfEven X = n"
proof -
  define y :: rat where "y = of_int c / of_int t * 100"
  define \<delta> :: rat where "\<delta> = 200 / 2 ^ 53"
  have n: "n = \<lfloor>y + 1 / 2\<rfloor>"
    using assms(3) by (simp add: n_def spec_percentage_def y_def)
  have close: "\<bar>X - y\<bar> \<le> \<delta>"
    unfolding X_def y_def \<delta>_def by (rule pct_close [OF assms(1-3)])
  have \<delta>: "0 < \<delta>" "\<delta> < 1 / 2"
    by (simp_all add: \<delta>_def)
  have up: "y + 1 / 2 + \<delta> < of_int n + 1"
    unfolding y_def n \<delta>_def by (rule exact_pct_gap(3) [OF assms(3,4)])
  have tie: "y = of_int n - 1 / 2" if "frac y = 1 / 2"
    using that unfolding y_def n by (rule exact_pct_gap(1) [OF assms(3,4)])
  have low: "of_int n + \<delta> < y + 1 / 2" if "frac y \<noteq> 1 / 2"
    using that unfolding y_def n \<delta>_def by (rule exact_pct_gap(2) [OF assms(3,4)])
  have hi: "X + 1 / 2 < of_int n + 1"
    using close up by linarith
  have exact: "Math_round X = n \<and> roundHalfEven X = n" if "frac y \<noteq> 1 / 2"
  proof
    have lo: "of_int n < X + 1 / 2"
      using close low [OF that] by linarith
    then show "Math_round X = n"
      unfolding Math_round_def using hi by (intro floor_unique) simp_all
    show "roundHalfEven X = n"
      using lo hi by (intro roundHalfEven_between) linarith+
  qed
  have near: "(Math_round X = n \<or> Math_round X = n - 1)
              \<and> (roundHalfEven X = n \<or> roundHalfEven X = n - 1)"
  proof (cases "frac y = 1 / 2")
    case False
    with exact show ?thesis by simp
  next
    case True
    have lo: "of_int n - 1 < X + 1 / 2"
      using close tie [OF True] \<delta> by linarith
    have "\<lfloor>X + 1 / 2\<rfloor> = n \<or> \<lfloor>X + 1 / 2\<rfloor> = n - 1"
    proof (cases "of_int n \<le> X + 1 / 2")
      case True
      then have "\<lfloor>X + 1 / 2\<rfloor> = n" using hi by (intro floor_unique) simp_all
      then show ?thesis by simp
    next
      case False
      then have "\<lfloor>X + 1 / 2\<rfloor> = n - 1" using lo by (intro floor_unique) simp_all
      then show ?thesis by simp
    qed
    moreover have "roundHalfEven X = n - 1 \<or> roundHalfEven X = n - 1 + 1"
      using lo hi by (intro roundHalfEven_near) simp_all
    ultimately show ?thesis by (auto simp: Math_round_def)
  qed
  show "Math_round X = n \<or> Math_round X = n - 1"
    and "roundHalfEven X = n \<or> roundHalfEven X = n - 1"
    using near by simp_all
  show "frac (of_int c / of_int t * 100 :: rat) \<noteq> 1 / 2 \<Longrightarrow> Math_round X = n"
    and "frac (of_int c / of_int t * 100 :: rat) \<noteq> 1 / 2 \<Longrightarrow> roundHalfEven X = n"
    using exact unfolding y_def by blast+
qed

text \<open>
  Rounding to a double keeps the sign, and leaves every integer of magnitude up to
  \<open>2 ^ 53\<close> as it is.
\<close>

lemma toDouble_minus: "toDouble (- x) = - toDouble x"
  by (simp add: toDouble_def Let_def)

lemma toDouble_pos_pos: "0 < x \<Longrightarrow> 0 < toDouble x"
proof -
  assume pos: "0 < x"
  have "(0::int) < 2 ^ 52" by simp
  also have "\<dots> \<le> roundHalfEven (x / 2 powi (ilog2 x - 52))"
    by (rule toDouble_significand(1) [OF pos])
  finally have "(0::rat) < of_int (roundHalfEven (x / 2 powi (ilog2 x - 52)))"
    by simp
  then show ?thesis
    using pos by (simp add: toDouble_pos)
qed

lemma toDouble_neg: "x < 0 \<Longrightarrow> toDouble x < 0"
  using toDouble_pos_pos [of "- x"] by (simp add: toDouble_minus)





subsection \<open>The percentages\<close>

lemma project_category_Inr:
  "t \<noteq> 0 \<Longrightarrow>
   project_category k t c =
     Inr \<lparr>cs_id = k, cs_category = k, cs_total = t, cs_completed = c,
          cs_percentage = roundHalfEven (toDouble (toDouble (of_int c / of_int t) * 100))\<rparr>"
  by (simp add: project_category_def mongo_divide_def mongo_multiply_def mongo_round_def)

text \<open>
  C7, as the specification has it: every percentage equals
  \<open>completed / total \<times> 100\<close> rounded half up. The code computes quotient and product in
  double precision. For 23 completed goals of 40 the exact percentage is \<open>57.5\<close>, the
  product of the doubles is just below it, and \<open>Math.round\<close> returns \<open>57\<close>, not
  \<open>58\<close>. For 1 of 8 the product is exactly \<open>12.5\<close> and \<open>$round\<close> returns the even
  neighbour \<open>12\<close>, not \<open>13\<close>.
\<close>

theorem percentage_half_up_counterexample:
  "completionRate 23 40 = 57 \<and> spec_percentage 23 40 = 58 \<and>
   project_category Health 8 1
     = Inr \<lparr>cs_id = Health, cs_category = Health, cs_total = 8, cs_completed = 1,
            cs_percentage = 12\<rparr> \<and>
   spec_percentage 1 8 = 13"
  by code_simp

lemma completionRate_range:
  assumes "0 \<le> c" and "c \<le> t"
  shows "0 \<le> completionRate c t \<and> completionRate c t \<le> 100"
proof (cases "0 < t")
  case False
  then show ?thesis by (simp add: completionRate_def)
next
  case True
  let ?X = "toDouble (toDouble (of_int c / of_int t) * 100)"
  have "(of_int 0 :: rat) \<le> ?X + 1 / 2" "?X + 1 / 2 < of_int 100 + 1"
    using pct_bounds [OF assms True] by simp_all
  then have "0 \<le> \<lfloor>?X + 1 / 2\<rfloor>" "\<lfloor>?X + 1 / 2\<rfloor> < 100 + 1"
    by (simp_all only: le_floor_iff floor_less_iff of_int_add of_int_1)
  then show ?thesis
    using True by (simp add: completionRate_def Math_round_def)
qed

text \<open>
  The rate of the dashboard is applied to two counts of the same goals, the completed
  ones among them, so it is a percentage for every collection of goals.
\<close>

lemma dashboard_completionRate_range:
  "0 \<le> sm_completionRate (dashboardSummary today uid goals) \<and>
   sm_completionRate (dashboardSummary today uid goals) \<le> 100"
proof -
  have e: "filter (\<lambda>g. userId g = uid \<and> completed g = True) goals
           = filter completed (filter (\<lambda>g. userId g = uid) goals)"
    by (simp add: conj_commute)
  have "length (filter (\<lambda>g. userId g = uid \<and> completed g = True) goals)
        \<le> length (filter (\<lambda>g. userId g = uid) goals)"
    unfolding e by (rule length_filter_le)
  then show ?thesis
    by (simp add: dashboardSummary_def Let_def countDocuments_def completionRate_range)
qed

text \<open>
  C7, amended: both percentages of the code, the completion rate
  (\<open>Math.round\<close>) and the percentage of a category (\<open>$round\<close>), are computed in double
  precision from \<open>completed / total \<times> 100\<close>. For \<open>0 \<le> completed \<le> total\<close> they lie
  between \<open>0\<close> and \<open>100\<close>; the completion rate is \<open>0\<close> when the total is \<open>0\<close>; the
  percentage of a category is defined for every positive total, and its division fails
  for a total of \<open>0\<close>, which no group has. For totals below
  \<open>2 ^ 44\<close> either one is the half-up rounding of the exact percentage or one less, and
  it is the half-up rounding whenever the exact percentage is not halfway between two
  integers.
\<close>

theorem percentages_in_range_and_nearest:
  "0 \<le> c \<Longrightarrow> c \<le> t \<Longrightarrow>
   completionRate c 0 = 0 \<and>
   project_category k 0 c = Inl DivideByZero \<and>
   0 \<le> completionRate c t \<and> completionRate c t \<le> 100 \<and>
   (0 < t \<longrightarrow>
      (\<exists>d. project_category k t c = Inr d \<and> 0 \<le> cs_percentage d \<and> cs_percentage d \<le> 100)) \<and>
   (0 < t \<and> t < 2 ^ 44 \<longrightarrow>
      (completionRate c t = spec_percentage c t \<or>
       completionRate c t = spec_percentage c t - 1) \<and>
      (\<exists>d. project_category k t c = Inr d \<and>
           (cs_percentage d = spec_percentage c t \<or>
            cs_percentage d = spec_percentage c t - 1))) \<and>
   (0 < t \<and> t < 2 ^ 44 \<and> frac (of_int c / of_int t * 100 :: rat) \<noteq> 1 / 2 \<longrightarrow>
      completionRate c t = spec_percentage c t \<and>
      (\<exists>d. project_category k t c = Inr d \<and> cs_percentage d = spec_percentage c t))"
proof -
  assume c: "0 \<le> c" "c \<le> t"
  let ?X = "toDouble (toDouble (of_int c / of_int t) * 100)"
  have zero: "completionRate c 0 = 0" "project_category k 0 c = Inl DivideByZero"
    by (simp_all add: completionRate_def project_category_def mongo_divide_def)
  have range: "0 \<le> completionRate c t \<and> completionRate c t \<le> 100"
    by (rule completionRate_range [OF c])
  have crange: "0 \<le> roundHalfEven ?X \<and> roundHalfEven ?X \<le> 100" if "0 < t"
  proof -
    have "(of_int 0 :: rat) \<le> ?X" "?X \<le> of_int 100"
      using pct_bounds [OF c that] by simp_all
    then show ?thesis
      by (simp only: roundHalfEven_ge roundHalfEven_le)
  qed
  have near: "(Math_round ?X = spec_percentage c t \<or> Math_round ?X = spec_percentage c t - 1)
     \<and> (roundHalfEven ?X = spec_percentage c t \<or> roundHalfEven ?X = spec_percentage c t - 1)"
    if "0 < t" "t < 2 ^ 44"
    using pct_rounds(1,2) [OF c that] by simp
  have exact: "Math_round ?X = spec_percentage c t \<and> roundHalfEven ?X = spec_percentage c t"
    if "0 < t" "t < 2 ^ 44" "frac (of_int c / of_int t * 100 :: rat) \<noteq> 1 / 2"
    using pct_rounds(3,4) [OF c that] by simp
  have cr: "completionRate c t = Math_round ?X" if "0 < t"
    using that by (simp add: completionRate_def)
  show ?thesis
  proof (cases "0 < t")
    case False
    with zero range show ?thesis by simp
  next
    case True
    then have pc: "project_category k t c =
      Inr \<lparr>cs_id = k, cs_category = k, cs_total = t, cs_completed = c,
          cs_percentage = roundHalfEven ?X\<rparr>"
      by (intro project_category_Inr) simp
    show ?thesis
      using zero range crange [OF True] near [OF True] exact [OF True]
      by (simp add: pc cr [OF True] True)
  qed
qed

theorem percentages_in_range_and_nearest_witness:
  "(0::int) \<le> 2 \<and> (2::int) \<le> 3 \<and> (0::int) < 3 \<and> (3::int) < 2 ^ 44 \<and>
   frac (of_int 2 / of_int 3 * 100 :: rat) = 2 / 3 \<and>
   completionRate 2 0 = 0 \<and> completionRate 2 3 = 67 \<and> spec_percentage 2 3 = 67 \<and>
   project_category Skill 3 2
     = Inr \<lparr>cs_id = Skill, cs_category = Skill, cs_total = 3, cs_completed = 2,
            cs_percentage = 67\<rparr>"
proof -
  have f: "frac (of_int 2 / of_int 3 * 100 :: rat) = 2 / 3"
    by code_simp
  have v: "completionRate 2 3 = 67" "spec_percentage 2 3 = 67"
    "project_category Skill 3 2
     = Inr \<lparr>cs_id = Skill, cs_category = Skill, cs_total = 3, cs_completed = 2,
            cs_percentage = 67\<rparr>"
    by code_simp+
  show ?thesis
    using percentages_in_range_and_nearest [of 2 3 Skill] f v by simp
qed

section \<open>Properties of the streak\<close>

lemma msPerDay_pos: "0 < msPerDay"
  by (simp add: msPerDay_def)


lemma setHours0_fixed:
  "setHours0 (fixedZone tz) t = (t + tz) div msPerDay * msPerDay - tz"
  by (simp add: setHours0_def localDay_def fixedZone_def)

lemma setHours0_fixed_idem:
  "setHours0 (fixedZone tz) (setHours0 (fixedZone tz) t) = setHours0 (fixedZone tz) t"
  using msPerDay_pos by (simp add: setHours0_fixed)

text \<open>
  The day difference: its sign is that of the difference of the midnights, it is \<open>0\<close>
  for equal midnights, and \<open>k\<close> for midnights that are \<open>k\<close> whole days apart.
\<close>

lemma daysDiff_neg:
  assumes "setHours0 z now < setHours0 z l"
  shows "daysDiff z now l < 0"
proof -
  have "(of_int (setHours0 z now) :: rat) - of_int (setHours0 z l) < 0"
    using assms by simp
  then have "toDouble (of_int (setHours0 z now) - of_int (setHours0 z l)) < 0"
    by (rule toDouble_neg)
  then have "toDouble (of_int (setHours0 z now) - of_int (setHours0 z l)) / of_int msPerDay < 0"
    using msPerDay_pos by (simp add: divide_neg_pos)
  then have "toDouble (toDouble (of_int (setHours0 z now) - of_int (setHours0 z l))
                       / of_int msPerDay) < of_int 0"
    using toDouble_neg by simp
  then show ?thesis
    unfolding daysDiff_def by (simp only: floor_less_iff)
qed

lemma daysDiff_same: "setHours0 z now = setHours0 z l \<Longrightarrow> daysDiff z now l = 0"
  by (simp add: daysDiff_def toDouble_zero)




text \<open>The two entry branches of \<open>updateStreak\<close>, with the record updates carried out.\<close>

lemma updateStreak_None:
  "lastActiveDate s = None \<Longrightarrow>
   updateStreak z now s = \<lparr>current = 1, longest = 1, lastActiveDate = Some (setHours0 z now)\<rparr>"
  by (simp add: updateStreak_def)

lemma updateStreak_Some:
  "lastActiveDate s = Some l \<Longrightarrow>
   updateStreak z now s =
     \<lparr>current = (if daysDiff z now l = 1 then toDouble (current s + 1)
                 else if 1 < daysDiff z now l then 1 else current s),
      longest = (if daysDiff z now l = 1 \<and> longest s < toDouble (current s + 1)
                 then toDouble (current s + 1) else longest s),
      lastActiveDate = Some (setHours0 z now)\<rparr>"
  by (simp add: updateStreak_def Let_def)

lemma lastActiveDate_updateStreak:
  "lastActiveDate (updateStreak z now s) = Some (setHours0 z now)"
  by (cases "lastActiveDate s") (simp_all add: updateStreak_None updateStreak_Some)

subsection \<open>A call dated before the last active date\<close>

text \<open>
  C1, as the specification has it: with a last active date set and today strictly
  earlier, the call raises \<open>OutOfOrderActivity\<close> and leaves the state unchanged. The
  source does neither. With the last active date on day 10 and a call on day 9 the
  difference is \<open>-1\<close>, neither branch fires, the function returns normally and the last
  active date has moved back to day 9.
\<close>

theorem out_of_order_counterexample:
  "setHours0 (fixedZone 0) (9 * msPerDay) < setHours0 (fixedZone 0) (10 * msPerDay) \<and>
   recordActivity (fixedZone 0) (9 * msPerDay)
       \<lparr>current = 3, longest = 5, lastActiveDate = Some (10 * msPerDay)\<rparr>
     \<noteq> Inl OutOfOrderActivity \<and>
   updateStreak (fixedZone 0) (9 * msPerDay)
       \<lparr>current = 3, longest = 5, lastActiveDate = Some (10 * msPerDay)\<rparr>
     \<noteq> \<lparr>current = 3, longest = 5, lastActiveDate = Some (10 * msPerDay)\<rparr>"
proof -
  have "updateStreak (fixedZone 0) (9 * msPerDay)
          \<lparr>current = 3, longest = 5, lastActiveDate = Some (10 * msPerDay)\<rparr>
        = \<lparr>current = 3, longest = 5, lastActiveDate = Some (9 * msPerDay)\<rparr>"
    by code_simp
  then show ?thesis
    by (simp add: recordActivity_def setHours0_fixed msPerDay_def)
qed

text \<open>
  C1, amended: with a last active date set and today strictly earlier than its day, the
  call raises no error; it leaves \<open>current\<close> and \<open>longest\<close> as they are and sets the
  last active date back to today's midnight.
\<close>

theorem out_of_order_restamps:
  "lastActiveDate s = Some l \<Longrightarrow> setHours0 z now < setHours0 z l \<Longrightarrow>
   recordActivity z now s = Inr (s\<lparr>lastActiveDate := Some (setHours0 z now)\<rparr>)"
  using daysDiff_neg [of z now l] by (simp add: recordActivity_def updateStreak_Some)

theorem out_of_order_restamps_witness:
  "lastActiveDate \<lparr>current = 2, longest = 7, lastActiveDate = Some (4 * msPerDay + 500)\<rparr>
     = Some (4 * msPerDay + 500) \<and>
   setHours0 (fixedZone 3600000) (2 * msPerDay)
     < setHours0 (fixedZone 3600000) (4 * msPerDay + 500) \<and>
   recordActivity (fixedZone 3600000) (2 * msPerDay)
       \<lparr>current = 2, longest = 7, lastActiveDate = Some (4 * msPerDay + 500)\<rparr>
     = Inr \<lparr>current = 2, longest = 7, lastActiveDate = Some (2 * msPerDay - 3600000)\<rparr>"
  using out_of_order_restamps
    [of "\<lparr>current = 2, longest = 7, lastActiveDate = Some (4 * msPerDay + 500)\<rparr>"
        "4 * msPerDay + 500" "fixedZone 3600000" "2 * msPerDay"]
  by (simp add: setHours0_fixed msPerDay_def)

subsection \<open>The longest streak bounds the current one\<close>

lemma streak_inv_step:
  assumes "current s \<le> longest s" and "lastActiveDate s = None \<or> 1 \<le> longest s"
  shows "current (updateStreak z now s) \<le> longest (updateStreak z now s)
         \<and> 1 \<le> longest (updateStreak z now s)"
  using assms by (cases "lastActiveDate s") (auto simp: updateStreak_None updateStreak_Some)

lemma streak_inv_updates:
  "current s \<le> longest s \<Longrightarrow> lastActiveDate s = None \<or> 1 \<le> longest s \<Longrightarrow>
   current (updates z nows s) \<le> longest (updates z nows s)"
proof (induction nows arbitrary: s)
  case Nil
  then show ?case by simp
next
  case (Cons now nows)
  from streak_inv_step [OF Cons.prems, of z now]
  show ?case
    by (simp add: Cons.IH)
qed

text \<open>
  C2: every state reached from the fresh state (both counters \<open>0\<close>, no last active date)
  by a sequence of calls has \<open>longest \<ge> current\<close>. The sequence of instants is arbitrary,
  in length and in order, and so is the zone, so the statement covers the state after
  each single update.
\<close>

theorem longest_ge_current:
  "current (updates z nows fresh) \<le> longest (updates z nows fresh)"
  by (rule streak_inv_updates) (simp_all add: fresh_def)

subsection \<open>Two calls on the same day\<close>

text \<open>
  C3: a second call on the same calendar day gives the same \<open>current\<close> and \<open>longest\<close>
  as the first alone and stamps the last active date with that day; and whenever the
  day difference is \<open>0\<close>, both counters are unchanged and only the last active date is
  written. The first statement is made for every zone with one offset and then for every
  zone in which the midnight of the day is its own midnight; the second for every zone.
\<close>

theorem same_day_idempotent:
  "(setHours0 (fixedZone tz) now2 = setHours0 (fixedZone tz) now1 \<longrightarrow>
     current (updateStreak (fixedZone tz) now2 (updateStreak (fixedZone tz) now1 s))
       = current (updateStreak (fixedZone tz) now1 s) \<and>
     longest (updateStreak (fixedZone tz) now2 (updateStreak (fixedZone tz) now1 s))
       = longest (updateStreak (fixedZone tz) now1 s) \<and>
     lastActiveDate (updateStreak (fixedZone tz) now2 (updateStreak (fixedZone tz) now1 s))
       = Some (setHours0 (fixedZone tz) now2)) \<and>
   (setHours0 z now2 = setHours0 z now1 \<and>
    setHours0 z (setHours0 z now1) = setHours0 z now1 \<longrightarrow>
     current (updateStreak z now2 (updateStreak z now1 s)) = current (updateStreak z now1 s) \<and>
     longest (updateStreak z now2 (updateStreak z now1 s)) = longest (updateStreak z now1 s) \<and>
     lastActiveDate (updateStreak z now2 (updateStreak z now1 s)) = Some (setHours0 z now2)) \<and>
   (lastActiveDate s = Some l \<and> daysDiff z now l = 0 \<longrightarrow>
     current (updateStreak z now s) = current s \<and>
     longest (updateStreak z now s) = longest s \<and>
     lastActiveDate (updateStreak z now s) = Some (setHours0 z now))"
proof -
  have gen: "current (updateStreak y now2 (updateStreak y now1 s))
               = current (updateStreak y now1 s) \<and>
             longest (updateStreak y now2 (updateStreak y now1 s))
               = longest (updateStreak y now1 s) \<and>
             lastActiveDate (updateStreak y now2 (updateStreak y now1 s))
               = Some (setHours0 y now2)"
    if "setHours0 y now2 = setHours0 y now1"
      and "setHours0 y (setHours0 y now1) = setHours0 y now1" for y
  proof -
    have "daysDiff y now2 (setHours0 y now1) = 0"
      using that by (intro daysDiff_same) simp
    then show ?thesis
      by (simp add: updateStreak_Some [OF lastActiveDate_updateStreak])
  qed
  show ?thesis
    using gen [of "fixedZone tz"] gen [of z]
    by (simp add: setHours0_fixed_idem updateStreak_Some)
qed

theorem same_day_idempotent_witness:
  "setHours0 (fixedZone 0) (msPerDay + 7) = setHours0 (fixedZone 0) (msPerDay + 3) \<and>
   updateStreak (fixedZone 0) (msPerDay + 3)
       \<lparr>current = 2, longest = 4, lastActiveDate = Some 0\<rparr>
     = \<lparr>current = 3, longest = 4, lastActiveDate = Some msPerDay\<rparr> \<and>
   updateStreak (fixedZone 0) (msPerDay + 7)
       (updateStreak (fixedZone 0) (msPerDay + 3)
          \<lparr>current = 2, longest = 4, lastActiveDate = Some 0\<rparr>)
     = \<lparr>current = 3, longest = 4, lastActiveDate = Some msPerDay\<rparr> \<and>
   setHours0 usEastern2024 1710097200000 = setHours0 usEastern2024 1710052200000 \<and>
   setHours0 usEastern2024 (setHours0 usEastern2024 1710052200000)
     = setHours0 usEastern2024 1710052200000 \<and>
   updateStreak usEastern2024 1710097200000
       (updateStreak usEastern2024 1710052200000
          \<lparr>current = 2, longest = 4, lastActiveDate = Some 1709960400000\<rparr>)
     = \<lparr>current = 3, longest = 4, lastActiveDate = Some 1710046800000\<rparr> \<and>
   daysDiff (fixedZone 0) (msPerDay + 7) msPerDay = 0"
proof -
  have v: "setHours0 (fixedZone 0) (msPerDay + 7) = setHours0 (fixedZone 0) (msPerDay + 3)"
    "updateStreak (fixedZone 0) (msPerDay + 3)
       \<lparr>current = 2, longest = 4, lastActiveDate = Some 0\<rparr>
     = \<lparr>current = 3, longest = 4, lastActiveDate = Some msPerDay\<rparr>"
    "updateStreak (fixedZone 0) (msPerDay + 7)
       (updateStreak (fixedZone 0) (msPerDay + 3)
          \<lparr>current = 2, longest = 4, lastActiveDate = Some 0\<rparr>)
     = \<lparr>current = 3, longest = 4, lastActiveDate = Some msPerDay\<rparr>"
    "setHours0 usEastern2024 1710097200000 = setHours0 usEastern2024 1710052200000"
    "setHours0 usEastern2024 (setHours0 usEastern2024 1710052200000)
     = setHours0 usEastern2024 1710052200000"
    "updateStreak usEastern2024 1710097200000
       (updateStreak usEastern2024 1710052200000
          \<lparr>current = 2, longest = 4, lastActiveDate = Some 1709960400000\<rparr>)
     = \<lparr>current = 3, longest = 4, lastActiveDate = Some 1710046800000\<rparr>"
    "daysDiff (fixedZone 0) (msPerDay + 7) msPerDay = 0"
    by code_simp+
  show ?thesis
    using same_day_idempotent
      [of 0 "msPerDay + 7" "msPerDay + 3"
          "\<lparr>current = 2, longest = 4, lastActiveDate = Some 0\<rparr>" usEastern2024
          msPerDay "msPerDay + 7"]
      v
    by simp
qed

subsection \<open>The longest streak over a sequence of calls\<close>

text \<open>
  C4, as the specification has it: from every streak state, \<open>longest\<close> never decreases
  along a sequence of calls with non-decreasing dates. The first-activity branch assigns
  \<open>longest = 1\<close> whatever was stored, so from a state without a last active date and
  with \<open>longest = 5\<close> the first call brings \<open>longest\<close> down to \<open>1\<close>.
\<close>

theorem longest_drops_counterexample:
  "sorted (map (setHours0 (fixedZone 0)) [0]) \<and>
   \<not> sorted (map longest
         (trace (fixedZone 0) [0] \<lparr>current = 0, longest = 5, lastActiveDate = None\<rparr>))"
  by (simp add: updateStreak_def)

lemma longest_updateStreak_mono:
  "lastActiveDate s \<noteq> None \<or> longest s \<le> 1 \<Longrightarrow>
   longest s \<le> longest (updateStreak z now s)"
  by (cases "lastActiveDate s") (auto simp: updateStreak_None updateStreak_Some)

lemma sorted_longest_trace:
  "lastActiveDate s \<noteq> None \<or> longest s \<le> 1 \<Longrightarrow> sorted (map longest (trace z nows s))"
proof (induction nows arbitrary: s)
  case Nil
  show ?case by simp
next
  case (Cons now nows)
  let ?s' = "updateStreak z now s"
  have set': "lastActiveDate ?s' \<noteq> None \<or> longest ?s' \<le> 1"
    by (simp add: lastActiveDate_updateStreak)
  have tail: "sorted (map longest (trace z nows ?s'))"
    by (rule Cons.IH [OF set'])
  have step: "longest s \<le> longest ?s'"
    by (rule longest_updateStreak_mono [OF Cons.prems])
  have hd: "trace z nows ?s' = ?s' # tl (trace z nows ?s')"
    by (cases nows) simp_all
  have "\<forall>x \<in> set (map longest (trace z nows ?s')). longest ?s' \<le> x"
    using tail by (subst (asm) hd, subst hd) auto
  then have "\<forall>x \<in> set (map longest (trace z nows ?s')). longest s \<le> x"
    using step by force
  then show ?case
    using tail by simp
qed

text \<open>
  C4, amended: from every streak state whose last active date is set, or whose
  \<open>longest\<close> is at most \<open>1\<close> (the fresh state is such a state, and so is every state
  after a call), \<open>longest\<close> never decreases along a sequence of calls with non-decreasing
  dates. The list is that of the values of \<open>longest\<close> before the first call and after
  each one.
\<close>

theorem longest_nondecreasing:
  "lastActiveDate s \<noteq> None \<or> longest s \<le> 1 \<Longrightarrow> sorted (map (setHours0 z) nows) \<Longrightarrow>
   sorted (map longest (trace z nows s))"
  by (rule sorted_longest_trace)

theorem longest_nondecreasing_witness:
  "lastActiveDate fresh = None \<and> longest fresh \<le> 1 \<and>
   sorted (map (setHours0 (fixedZone 0)) [0, msPerDay, 3 * msPerDay]) \<and>
   map longest (trace (fixedZone 0) [0, msPerDay, 3 * msPerDay] fresh) = [0, 1, 2, 2] \<and>
   sorted (map longest (trace (fixedZone 0) [0, msPerDay, 3 * msPerDay] fresh))"
proof -
  have v: "map (setHours0 (fixedZone 0)) [0, msPerDay, 3 * msPerDay]
             = [0, msPerDay, 3 * msPerDay]"
    "map longest (trace (fixedZone 0) [0, msPerDay, 3 * msPerDay] fresh) = [0, 1, 2, 2]"
    by code_simp+
  show ?thesis
    using longest_nondecreasing [of fresh "fixedZone 0" "[0, msPerDay, 3 * msPerDay]"] v
    by (simp add: fresh_def msPerDay_def)
qed

subsection \<open>A broken streak\<close>



subsection \<open>Consecutive days\<close>




section \<open>Properties of the aggregations\<close>

subsection \<open>A user without goals\<close>

lemma map_fst_group_stage: "map fst (group_stage key docs) = remdups (map key docs)"
  by (simp add: group_stage_def comp_def)

lemma group_stage_Nil: "group_stage key [] = []"
  by (simp add: group_stage_def)

text \<open>
  C10: for a user none of whose goals is in the collection, \<open>getStatsByUser\<close> returns
  the document with total, completed and overdue all \<open>0\<close>: the pipeline yields no group
  and the literal after \<open>||\<close> is the result.
\<close>

theorem no_goals_overview_zero:
  "match (\<lambda>g. userId g = uid) goals = [] \<Longrightarrow>
   getStatsByUser now uid goals = \<lparr>ov_total = 0, ov_completed = 0, ov_overdue = 0\<rparr>"
  by (simp add: getStatsByUser_def group_stage_Nil)

theorem no_goals_overview_zero_witness:
  "match (\<lambda>g. userId g = ''alice'')
     [\<lparr>userId = ''bob'', category = Health, priority = High, deadline = 5,
       completed = False, createdAt = 1, updatedAt = 1\<rparr>] = [] \<and>
   getStatsByUser 9 ''alice''
     [\<lparr>userId = ''bob'', category = Health, priority = High, deadline = 5,
       completed = False, createdAt = 1, updatedAt = 1\<rparr>]
     = \<lparr>ov_total = 0, ov_completed = 0, ov_overdue = 0\<rparr> \<and>
   getStatsByUser 9 ''bob''
     [\<lparr>userId = ''bob'', category = Health, priority = High, deadline = 5,
       completed = False, createdAt = 1, updatedAt = 1\<rparr>]
     = \<lparr>ov_total = 1, ov_completed = 0, ov_overdue = 1\<rparr>"
  using no_goals_overview_zero
    [of "''alice''"
        "[\<lparr>userId = ''bob'', category = Health, priority = High, deadline = 5,
           completed = False, createdAt = 1, updatedAt = 1\<rparr>]" 9]
  by (simp add: match_def getStatsByUser_def group_stage_def sum_acc_def)

subsection \<open>The series of the progress route\<close>

text \<open>The sums over the groups of a key add up to the sum over all documents.\<close>

lemma sum_acc_group_set:
  "finite K \<Longrightarrow> key ` set docs \<subseteq> K \<Longrightarrow>
   (\<Sum>k\<in>K. sum_acc e (filter (\<lambda>d. key d = k) docs)) = sum_acc e docs"
proof (induction docs)
  case Nil
  then show ?case by (simp add: sum_acc_def)
next
  case (Cons d docs)
  have "(\<Sum>k\<in>K. sum_acc e (filter (\<lambda>x. key x = k) (d # docs)))
        = (\<Sum>k\<in>K. (if key d = k then e d else 0) + sum_acc e (filter (\<lambda>x. key x = k) docs))"
    by (intro sum.cong) (simp_all add: sum_acc_def)
  also have "\<dots> = (\<Sum>k\<in>K. if key d = k then e d else 0)
                  + (\<Sum>k\<in>K. sum_acc e (filter (\<lambda>x. key x = k) docs))"
    by (simp add: sum.distrib)
  also have "(\<Sum>k\<in>K. if key d = k then e d else 0) = e d"
    using Cons.prems by (simp add: sum.delta')
  also have "(\<Sum>k\<in>K. sum_acc e (filter (\<lambda>x. key x = k) docs)) = sum_acc e docs"
    using Cons.prems by (intro Cons.IH) auto
  finally show ?case by (simp add: sum_acc_def)
qed

lemma sum_acc_group:
  "sum_list (map (\<lambda>(k, ds). sum_acc e ds) (group_stage key docs)) = sum_acc e docs"
proof -
  have "sum_list (map (\<lambda>(k, ds). sum_acc e ds) (group_stage key docs))
        = sum_list (map (\<lambda>k. sum_acc e (filter (\<lambda>d. key d = k) docs)) (remdups (map key docs)))"
    by (simp add: group_stage_def comp_def)
  also have "\<dots> = (\<Sum>k\<in>set (map key docs). sum_acc e (filter (\<lambda>d. key d = k) docs))"
    by (simp add: sum_list_distinct_conv_sum_set)
  also have "\<dots> = sum_acc e docs"
    by (rule sum_acc_group_set) simp_all
  finally show ?thesis .
qed

text \<open>Sorting changes neither a sum nor the keys, which it puts in order.\<close>

lemma sum_list_insort_key:
  "sum_list (map f (insort_key k x xs)) = f x + sum_list (map f xs)" for f :: "'a \<Rightarrow> int"
  by (induction xs) simp_all

lemma sum_list_sort_key:
  "sum_list (map f (sort_key k xs)) = sum_list (map f xs)" for f :: "'a \<Rightarrow> int"
  by (induction xs) (simp_all add: sum_list_insort_key)

lemma map_key_insort_key: "map k (insort_key k x xs) = insort (k x) (map k xs)"
  by (induction xs) simp_all

lemma map_key_sort_key: "map k (sort_key k xs) = sort (map k xs)"
  by (induction xs) (simp_all add: map_key_insort_key)

text \<open>The points of the cumulative series carry the running sums of the days.\<close>

lemma pp_date_cumulative: "map pp_date (cumulative a b ds) = map db_id ds"
  by (induction ds arbitrary: a b) (simp_all add: Let_def)

lemma length_cumulative: "length (cumulative a b ds) = length ds"
  by (induction ds arbitrary: a b) (simp_all add: Let_def)

lemma cumulative_nth:
  "i < length ds \<Longrightarrow>
   pp_total (cumulative a b ds ! i) = a + sum_list (map db_created (take (Suc i) ds)) \<and>
   pp_completed (cumulative a b ds ! i) = b + sum_list (map db_completed (take (Suc i) ds)) \<and>
   pp_completionRate (cumulative a b ds ! i)
     = completionRate (pp_completed (cumulative a b ds ! i)) (pp_total (cumulative a b ds ! i))"
proof (induction ds arbitrary: a b i)
  case Nil
  then show ?case by simp
next
  case (Cons d ds)
  show ?case
  proof (cases i)
    case 0
    then show ?thesis by (simp add: Let_def)
  next
    case (Suc j)
    with Cons.prems have "j < length ds" by simp
    from Cons.IH [OF this, of "a + db_created d" "b + db_completed d"] Suc
    show ?thesis by (simp add: Let_def)
  qed
qed

lemma cumulative_last:
  assumes "ds \<noteq> []"
  shows "pp_total (last (cumulative a b ds)) = a + sum_list (map db_created ds)"
    and "pp_completed (last (cumulative a b ds)) = b + sum_list (map db_completed ds)"
proof -
  have ne: "cumulative a b ds \<noteq> []"
    using assms length_cumulative [of a b ds] by (metis length_0_conv)
  have i: "length ds - 1 < length ds"
    using assms by simp
  have "last (cumulative a b ds) = cumulative a b ds ! (length ds - 1)"
    using ne by (simp add: last_conv_nth length_cumulative)
  with cumulative_nth [OF i, of a b] assms
  show "pp_total (last (cumulative a b ds)) = a + sum_list (map db_created ds)"
    and "pp_completed (last (cumulative a b ds)) = b + sum_list (map db_completed ds)"
    by simp_all
qed

lemma progressData_keys:
  "map db_id (progressData fmt uid startDate goals)
     = sort (remdups (map (\<lambda>g. fmt (createdAt g))
                        (match (\<lambda>g. userId g = uid \<and> startDate \<le> createdAt g) goals)))"
proof -
  have proj: "db_id \<circ> (\<lambda>(k, docs).
               \<lparr>db_id = k, db_created = sum_acc (\<lambda>g. 1) docs,
                db_completed = sum_acc (\<lambda>g. if completed g then 1 else 0) docs\<rparr>)
        = (fst :: 'k \<times> goal list \<Rightarrow> 'k)"
    by (auto simp: fun_eq_iff)
  show ?thesis
    by (simp add: progressData_def map_key_sort_key proj map_fst_group_stage)
qed

lemma progressData_created:
  "sum_list (map db_created (progressData fmt uid startDate goals))
     = int (length (match (\<lambda>g. userId g = uid \<and> startDate \<le> createdAt g) goals))"
proof -
  have proj: "db_created \<circ> (\<lambda>(k, docs).
               \<lparr>db_id = k, db_created = sum_acc (\<lambda>g. 1) docs,
                db_completed = sum_acc (\<lambda>g. if completed g then 1 else 0) docs\<rparr>)
        = (\<lambda>(k :: 'k, docs). sum_acc (\<lambda>g. 1) docs)"
    by (auto simp: fun_eq_iff)
  have "sum_list (map db_created (progressData fmt uid startDate goals))
        = sum_acc (\<lambda>g. 1) (match (\<lambda>g. userId g = uid \<and> startDate \<le> createdAt g) goals)"
    by (simp add: progressData_def sum_list_sort_key proj sum_acc_group)
  also have "\<dots> = int (length (match (\<lambda>g. userId g = uid \<and> startDate \<le> createdAt g) goals))"
    by (simp add: sum_acc_def sum_list_triv)
  finally show ?thesis .
qed

lemma sum_acc_indicator: "sum_acc (\<lambda>g. if p g then 1 else 0) docs = int (length (filter p docs))"
  by (induction docs) (simp_all add: sum_acc_def)

lemma progressData_completed:
  "sum_list (map db_completed (progressData fmt uid startDate goals))
     = int (length (filter completed
                      (match (\<lambda>g. userId g = uid \<and> startDate \<le> createdAt g) goals)))"
proof -
  have proj: "db_completed \<circ> (\<lambda>(k, docs).
               \<lparr>db_id = k, db_created = sum_acc (\<lambda>g. 1) docs,
                db_completed = sum_acc (\<lambda>g. if completed g then 1 else 0) docs\<rparr>)
        = (\<lambda>(k :: 'k, docs). sum_acc (\<lambda>g. if completed g then 1 else 0) docs)"
    by (auto simp: fun_eq_iff)
  have "sum_list (map db_completed (progressData fmt uid startDate goals))
        = sum_acc (\<lambda>g. if completed g then 1 else 0)
            (match (\<lambda>g. userId g = uid \<and> startDate \<le> createdAt g) goals)"
    by (simp add: progressData_def sum_list_sort_key proj sum_acc_group)
  then show ?thesis
    by (simp add: sum_acc_indicator)
qed

text \<open>
  C9: in the series of the progress route, computed from the goals of the user created
  at or after the start date, the last point carries as cumulative total the number of
  those goals and as cumulative completed the number of them that are completed now;
  the points are in strictly ascending order of their date key, one for each date on
  which such a goal was created; and the cumulative fields of each point are the sums of
  the daily counts up to and including its day.
\<close>

theorem cumulative_totals_at_last_bucket:
  "(cumulativeProgress fmt uid startDate goals \<noteq> [] \<longrightarrow>
      pp_total (last (cumulativeProgress fmt uid startDate goals))
        = int (length (match (\<lambda>g. userId g = uid \<and> startDate \<le> createdAt g) goals)) \<and>
      pp_completed (last (cumulativeProgress fmt uid startDate goals))
        = int (length (filter completed
                 (match (\<lambda>g. userId g = uid \<and> startDate \<le> createdAt g) goals)))) \<and>
   sorted_wrt (<) (map pp_date (cumulativeProgress fmt uid startDate goals)) \<and>
   set (map pp_date (cumulativeProgress fmt uid startDate goals))
     = set (map (\<lambda>g. fmt (createdAt g))
              (match (\<lambda>g. userId g = uid \<and> startDate \<le> createdAt g) goals)) \<and>
   length (cumulativeProgress fmt uid startDate goals)
     = length (progressData fmt uid startDate goals) \<and>
   (\<forall>i < length (progressData fmt uid startDate goals).
      pp_total (cumulativeProgress fmt uid startDate goals ! i)
        = sum_list (map db_created (take (Suc i) (progressData fmt uid startDate goals))) \<and>
      pp_completed (cumulativeProgress fmt uid startDate goals ! i)
        = sum_list (map db_completed (take (Suc i) (progressData fmt uid startDate goals))))"
proof -
  let ?pd = "progressData fmt uid startDate goals"
  let ?ts = "cumulativeProgress fmt uid startDate goals"
  have ts: "?ts = cumulative 0 0 ?pd"
    by (simp add: cumulativeProgress_def)
  have len: "length ?ts = length ?pd"
    by (simp add: ts length_cumulative)
  have dates: "map pp_date ?ts = map db_id ?pd"
    by (simp add: ts pp_date_cumulative)
  have last_ok: "pp_total (last ?ts)
        = int (length (match (\<lambda>g. userId g = uid \<and> startDate \<le> createdAt g) goals)) \<and>
      pp_completed (last ?ts)
        = int (length (filter completed
                 (match (\<lambda>g. userId g = uid \<and> startDate \<le> createdAt g) goals)))"
    if "?ts \<noteq> []"
  proof -
    from that len have "?pd \<noteq> []" by auto
    from cumulative_last [OF this, of 0 0] show ?thesis
      by (simp add: ts progressData_created progressData_completed)
  qed
  have ord: "sorted_wrt (<) (map pp_date ?ts)"
    by (simp add: dates progressData_keys strict_sorted_iff)
  have keys: "set (map pp_date ?ts)
     = set (map (\<lambda>g. fmt (createdAt g))
              (match (\<lambda>g. userId g = uid \<and> startDate \<le> createdAt g) goals))"
    by (simp only: dates progressData_keys) simp
  have run: "\<forall>i < length ?pd.
      pp_total (?ts ! i) = sum_list (map db_created (take (Suc i) ?pd)) \<and>
      pp_completed (?ts ! i) = sum_list (map db_completed (take (Suc i) ?pd))"
    using cumulative_nth [of _ ?pd 0 0] by (simp add: ts)
  from last_ok ord keys len run show ?thesis
    by blast
qed

theorem cumulative_totals_at_last_bucket_witness:
  "cumulativeProgress (\<lambda>t. t div msPerDay) ''alice'' 0
      [\<lparr>userId = ''alice'', category = Health, priority = High, deadline = 900000000,
        completed = True, createdAt = 5, updatedAt = 7\<rparr>,
       \<lparr>userId = ''alice'', category = Health, priority = Low, deadline = 900000000,
        completed = False, createdAt = 9, updatedAt = 9\<rparr>,
       \<lparr>userId = ''alice'', category = Career, priority = Medium, deadline = 900000000,
        completed = True, createdAt = 172800000, updatedAt = 172800001\<rparr>,
       \<lparr>userId = ''bob'', category = Skill, priority = Medium, deadline = 900000000,
        completed = True, createdAt = 86400000, updatedAt = 86400000\<rparr>,
       \<lparr>userId = ''alice'', category = Finance, priority = Medium, deadline = 900000000,
        completed = True, createdAt = - 86400000, updatedAt = 3\<rparr>]
     = [\<lparr>pp_date = 0, pp_total = 2, pp_completed = 1, pp_completionRate = 50\<rparr>,
        \<lparr>pp_date = 2, pp_total = 3, pp_completed = 2, pp_completionRate = 67\<rparr>] \<and>
   length (match (\<lambda>g. userId g = ''alice'' \<and> 0 \<le> createdAt g)
      [\<lparr>userId = ''alice'', category = Health, priority = High, deadline = 900000000,
        completed = True, createdAt = 5, updatedAt = 7\<rparr>,
       \<lparr>userId = ''alice'', category = Health, priority = Low, deadline = 900000000,
        completed = False, createdAt = 9, updatedAt = 9\<rparr>,
       \<lparr>userId = ''alice'', category = Career, priority = Medium, deadline = 900000000,
        completed = True, createdAt = 172800000, updatedAt = 172800001\<rparr>,
       \<lparr>userId = ''bob'', category = Skill, priority = Medium, deadline = 900000000,
        completed = True, createdAt = 86400000, updatedAt = 86400000\<rparr>,
       \<lparr>userId = ''alice'', category = Finance, priority = Medium, deadline = 900000000,
        completed = True, createdAt = - 86400000, updatedAt = 3\<rparr>]) = 3 \<and>
   length (filter completed (match (\<lambda>g. userId g = ''alice'' \<and> 0 \<le> createdAt g)
      [\<lparr>userId = ''alice'', category = Health, priority = High, deadline = 900000000,
        completed = True, createdAt = 5, updatedAt = 7\<rparr>,
       \<lparr>userId = ''alice'', category = Health, priority = Low, deadline = 900000000,
        completed = False, createdAt = 9, updatedAt = 9\<rparr>,
       \<lparr>userId = ''alice'', category = Career, priority = Medium, deadline = 900000000,
        completed = True, createdAt = 172800000, updatedAt = 172800001\<rparr>,
       \<lparr>userId = ''bob'', category = Skill, priority = Medium, deadline = 900000000,
        completed = True, createdAt = 86400000, updatedAt = 86400000\<rparr>,
       \<lparr>userId = ''alice'', category = Finance, priority = Medium, deadline = 900000000,
        completed = True, createdAt = - 86400000, updatedAt = 3\<rparr>])) = 2"
proof -
  have v: "cumulativeProgress (\<lambda>t. t div msPerDay) ''alice'' 0
      [\<lparr>userId = ''alice'', category = Health, priority = High, deadline = 900000000,
        completed = True, createdAt = 5, updatedAt = 7\<rparr>,
       \<lparr>userId = ''alice'', category = Health, priority = Low, deadline = 900000000,
        completed = False, createdAt = 9, updatedAt = 9\<rparr>,
       \<lparr>userId = ''alice'', category = Career, priority = Medium, deadline = 900000000,
        completed = True, createdAt = 172800000, updatedAt = 172800001\<rparr>,
       \<lparr>userId = ''bob'', category = Skill, priority = Medium, deadline = 900000000,
        completed = True, createdAt = 86400000, updatedAt = 86400000\<rparr>,
       \<lparr>userId = ''alice'', category = Finance, priority = Medium, deadline = 900000000,
        completed = True, createdAt = - 86400000, updatedAt = 3\<rparr>]
     = [\<lparr>pp_date = 0, pp_total = 2, pp_completed = 1, pp_completionRate = 50\<rparr>,
        \<lparr>pp_date = 2, pp_total = 3, pp_completed = 2, pp_completionRate = 67\<rparr>]"
    by code_simp
  show ?thesis
    using cumulative_totals_at_last_bucket
      [of "\<lambda>t. t div msPerDay" "''alice''" 0
          "[\<lparr>userId = ''alice'', category = Health, priority = High, deadline = 900000000,
        completed = True, createdAt = 5, updatedAt = 7\<rparr>,
       \<lparr>userId = ''alice'', category = Health, priority = Low, deadline = 900000000,
        completed = False, createdAt = 9, updatedAt = 9\<rparr>,
       \<lparr>userId = ''alice'', category = Career, priority = Medium, deadline = 900000000,
        completed = True, createdAt = 172800000, updatedAt = 172800001\<rparr>,
       \<lparr>userId = ''bob'', category = Skill, priority = Medium, deadline = 900000000,
        completed = True, createdAt = 86400000, updatedAt = 86400000\<rparr>,
       \<lparr>userId = ''alice'', category = Finance, priority = Medium, deadline = 900000000,
        completed = True, createdAt = - 86400000, updatedAt = 3\<rparr>]"]
      v
    by (simp add: match_def)
qed

subsection \<open>The breakdown by category\<close>

lemma all_or_error_Inr:
  "(\<And>x. x \<in> set xs \<Longrightarrow> f x = Inr (g x)) \<Longrightarrow> all_or_error (map f xs) = Inr (map g xs)"
  by (induction xs) simp_all

lemma sum_acc_one: "sum_acc (\<lambda>g. 1) docs = int (length docs)"
  by (simp add: sum_acc_def sum_list_triv)

lemma getStatsByCategory_entries:
  "getStatsByCategory uid goals
     = Inr (map (category_entry (match (\<lambda>g. userId g = uid) goals))
              (remdups (map category (match (\<lambda>g. userId g = uid) goals))))"
proof -
  let ?m = "match (\<lambda>g. userId g = uid) goals"
  have ne: "filter (\<lambda>g. category g = k) ?m \<noteq> []" if "k \<in> set (map category ?m)" for k
    using that by (auto simp: filter_empty_conv)
  have "all_or_error
          (map (\<lambda>k. project_category k
                       (sum_acc (\<lambda>g. 1) (filter (\<lambda>g. category g = k) ?m))
                       (sum_acc (\<lambda>g. if completed g = True then 1 else 0)
                          (filter (\<lambda>g. category g = k) ?m)))
             (remdups (map category ?m)))
        = Inr (map (category_entry ?m) (remdups (map category ?m)))"
  proof (rule all_or_error_Inr)
    fix k assume "k \<in> set (remdups (map category ?m))"
    then have "filter (\<lambda>g. category g = k) ?m \<noteq> []"
      using ne by simp
    then show "project_category k
                 (sum_acc (\<lambda>g. 1) (filter (\<lambda>g. category g = k) ?m))
                 (sum_acc (\<lambda>g. if completed g = True then 1 else 0)
                    (filter (\<lambda>g. category g = k) ?m))
               = Inr (category_entry ?m k)"
      by (simp add: project_category_def mongo_divide_def sum_acc_one sum_acc_indicator
          category_entry_def)
  qed
  then show ?thesis
    by (simp add: getStatsByCategory_def group_stage_def comp_def)
qed

text \<open>
  C8: \<open>getStatsByCategory\<close> succeeds and returns one entry for each category that
  occurs among the goals of the user and none for any other category, each entry with
  the number of these goals, at least one, and the number of the completed ones; for two
  health goals, one of them completed, and one completed career goal the entries are
  health with \<open>2\<close>, \<open>1\<close> and \<open>50\<close> per cent and career with \<open>1\<close>, \<open>1\<close> and
  \<open>100\<close> per cent. The count is the field \<open>total\<close> of the source.
\<close>

theorem categories_present_once:
  "(\<exists>r. getStatsByCategory uid goals = Inr r \<and>
        distinct (map cs_category r) \<and>
        set (map cs_category r) = set (map category (match (\<lambda>g. userId g = uid) goals)) \<and>
        (\<forall>d \<in> set r.
           1 \<le> cs_total d \<and>
           cs_total d
             = int (length (filter (\<lambda>g. userId g = uid \<and> category g = cs_category d) goals)) \<and>
           cs_completed d
             = int (length (filter (\<lambda>g. userId g = uid \<and> category g = cs_category d
                                     \<and> completed g) goals)))) \<and>
   (\<exists>r. getStatsByCategory uid
           [\<lparr>userId = uid, category = Health, priority = p1, deadline = d1,
             completed = True, createdAt = c1, updatedAt = u1\<rparr>,
            \<lparr>userId = uid, category = Health, priority = p2, deadline = d2,
             completed = False, createdAt = c2, updatedAt = u2\<rparr>,
            \<lparr>userId = uid, category = Career, priority = p3, deadline = d3,
             completed = True, createdAt = c3, updatedAt = u3\<rparr>] = Inr r \<and>
        set r = {\<lparr>cs_id = Health, cs_category = Health, cs_total = 2, cs_completed = 1,
                   cs_percentage = 50\<rparr>,
                 \<lparr>cs_id = Career, cs_category = Career, cs_total = 1, cs_completed = 1,
                   cs_percentage = 100\<rparr>} \<and>
        length r = 2)"
proof (intro conjI)
  let ?m = "match (\<lambda>g. userId g = uid) goals"
  let ?r = "map (category_entry ?m) (remdups (map category ?m))"
  have cat: "map cs_category ?r = remdups (map category ?m)"
    by (simp add: comp_def category_entry_def)
  have flt: "filter (\<lambda>g. category g = k) ?m = filter (\<lambda>g. userId g = uid \<and> category g = k) goals" for k
    by (simp add: match_def conj_commute)
  have flt2: "filter (\<lambda>g. completed g) (filter (\<lambda>g. category g = k) ?m)
       = filter (\<lambda>g. userId g = uid \<and> category g = k \<and> completed g) goals" for k
    by (simp add: match_def conj_commute conj_left_commute)
  have ent: "1 \<le> cs_total d \<and>
           cs_total d
             = int (length (filter (\<lambda>g. userId g = uid \<and> category g = cs_category d) goals)) \<and>
           cs_completed d
             = int (length (filter (\<lambda>g. userId g = uid \<and> category g = cs_category d
                                     \<and> completed g) goals))"
    if "d \<in> set ?r" for d
  proof -
    from that obtain k where k: "k \<in> set (map category ?m)" and d: "d = category_entry ?m k"
      by auto
    from k have "filter (\<lambda>g. category g = k) ?m \<noteq> []"
      by (auto simp: filter_empty_conv)
    then have "1 \<le> int (length (filter (\<lambda>g. category g = k) ?m))"
      by (cases "filter (\<lambda>g. category g = k) ?m") simp_all
    then show ?thesis
      unfolding d by (simp add: category_entry_def flt flt2)
  qed
  show "\<exists>r. getStatsByCategory uid goals = Inr r \<and>
        distinct (map cs_category r) \<and>
        set (map cs_category r) = set (map category ?m) \<and>
        (\<forall>d \<in> set r.
           1 \<le> cs_total d \<and>
           cs_total d
             = int (length (filter (\<lambda>g. userId g = uid \<and> category g = cs_category d) goals)) \<and>
           cs_completed d
             = int (length (filter (\<lambda>g. userId g = uid \<and> category g = cs_category d
                                     \<and> completed g) goals)))"
  proof (intro exI conjI ballI)
    show "getStatsByCategory uid goals = Inr ?r"
      by (rule getStatsByCategory_entries)
    show "distinct (map cs_category ?r)"
      by (simp only: cat distinct_remdups)
    show "set (map cs_category ?r) = set (map category ?m)"
      by (simp only: cat set_remdups)
  qed (use ent in blast)+
next
  have half: "toDouble (1 / 2) = 1 / 2"
    by code_simp
  have fifty: "toDouble 50 = 50"
    by code_simp
  have one: "toDouble 1 = 1"
    by code_simp
  have hundred: "toDouble 100 = 100"
    by code_simp
  show "\<exists>r. getStatsByCategory uid
           [\<lparr>userId = uid, category = Health, priority = p1, deadline = d1,
             completed = True, createdAt = c1, updatedAt = u1\<rparr>,
            \<lparr>userId = uid, category = Health, priority = p2, deadline = d2,
             completed = False, createdAt = c2, updatedAt = u2\<rparr>,
            \<lparr>userId = uid, category = Career, priority = p3, deadline = d3,
             completed = True, createdAt = c3, updatedAt = u3\<rparr>] = Inr r \<and>
        set r = {\<lparr>cs_id = Health, cs_category = Health, cs_total = 2, cs_completed = 1,
                   cs_percentage = 50\<rparr>,
                 \<lparr>cs_id = Career, cs_category = Career, cs_total = 1, cs_completed = 1,
                   cs_percentage = 100\<rparr>} \<and>
        length r = 2"
    by (simp add: getStatsByCategory_def group_stage_def match_def sum_acc_def project_category_def
        mongo_divide_def mongo_multiply_def mongo_round_def half fifty one hundred
        roundHalfEven_def)
qed

theorem categories_present_once_witness:
  "getStatsByCategory ''alice''
      [\<lparr>userId = ''alice'', category = Health, priority = High, deadline = 900000000,
        completed = True, createdAt = 5, updatedAt = 7\<rparr>,
       \<lparr>userId = ''alice'', category = Health, priority = Low, deadline = 900000000,
        completed = False, createdAt = 9, updatedAt = 9\<rparr>,
       \<lparr>userId = ''alice'', category = Career, priority = Medium, deadline = 900000000,
        completed = True, createdAt = 172800000, updatedAt = 172800001\<rparr>,
       \<lparr>userId = ''bob'', category = Skill, priority = Medium, deadline = 900000000,
        completed = True, createdAt = 86400000, updatedAt = 86400000\<rparr>,
       \<lparr>userId = ''alice'', category = Finance, priority = Medium, deadline = 900000000,
        completed = True, createdAt = - 86400000, updatedAt = 3\<rparr>]
     = Inr [\<lparr>cs_id = Health, cs_category = Health, cs_total = 2, cs_completed = 1,
             cs_percentage = 50\<rparr>,
            \<lparr>cs_id = Career, cs_category = Career, cs_total = 1, cs_completed = 1,
             cs_percentage = 100\<rparr>,
            \<lparr>cs_id = Finance, cs_category = Finance, cs_total = 1, cs_completed = 1,
             cs_percentage = 100\<rparr>]"
proof -
  have v: "getStatsByCategory ''alice''
      [\<lparr>userId = ''alice'', category = Health, priority = High, deadline = 900000000,
        completed = True, createdAt = 5, updatedAt = 7\<rparr>,
       \<lparr>userId = ''alice'', category = Health, priority = Low, deadline = 900000000,
        completed = False, createdAt = 9, updatedAt = 9\<rparr>,
       \<lparr>userId = ''alice'', category = Career, priority = Medium, deadline = 900000000,
        completed = True, createdAt = 172800000, updatedAt = 172800001\<rparr>,
       \<lparr>userId = ''bob'', category = Skill, priority = Medium, deadline = 900000000,
        completed = True, createdAt = 86400000, updatedAt = 86400000\<rparr>,
       \<lparr>userId = ''alice'', category = Finance, priority = Medium, deadline = 900000000,
        completed = True, createdAt = - 86400000, updatedAt = 3\<rparr>]
     = Inr [\<lparr>cs_id = Health, cs_category = Health, cs_total = 2, cs_completed = 1,
             cs_percentage = 50\<rparr>,
            \<lparr>cs_id = Career, cs_category = Career, cs_total = 1, cs_completed = 1,
             cs_percentage = 100\<rparr>,
            \<lparr>cs_id = Finance, cs_category = Finance, cs_total = 1, cs_completed = 1,
             cs_percentage = 100\<rparr>]"
    by code_simp
  show ?thesis
    using categories_present_once
      [of "''alice''"
          "[\<lparr>userId = ''alice'', category = Health, priority = High, deadline = 900000000,
        completed = True, createdAt = 5, updatedAt = 7\<rparr>,
       \<lparr>userId = ''alice'', category = Health, priority = Low, deadline = 900000000,
        completed = False, createdAt = 9, updatedAt = 9\<rparr>,
       \<lparr>userId = ''alice'', category = Career, priority = Medium, deadline = 900000000,
        completed = True, createdAt = 172800000, updatedAt = 172800001\<rparr>,
       \<lparr>userId = ''bob'', category = Skill, priority = Medium, deadline = 900000000,
        completed = True, createdAt = 86400000, updatedAt = 86400000\<rparr>,
       \<lparr>userId = ''alice'', category = Finance, priority = Medium, deadline = 900000000,
        completed = True, createdAt = - 86400000, updatedAt = 3\<rparr>]"]
      v
    by simp
qed

end

